theory Spec2Isabelle
  imports Complex_Main "HOL-Library.Sublist"
begin

section \<open>Sequential full attacks: a model of \<^verbatim>\<open>scripts/sequential-attacks.mjs\<close>\<close>

text \<open>
  The module resolves a full attack one roll at a time. The model follows the source:
  the planner of \<^verbatim>\<open>sequentialProcessWrapper\<close> (ammo filter, charge filter), the class
  \<^verbatim>\<open>SequentialAttackTracker\<close> as a record that is passed on and returned updated, and the
  helper \<^verbatim>\<open>_subtractSingleAttackAmmo\<close>. Calls into the host (the roll, the chat card, the
  writes to the actor) are inputs of each step: what they return and where they throw.
  The asynchronous listeners are modelled twice: run to their end in one step, and taken
  apart at their wait, so that clicks can come in between.
  JavaScript numbers are integers here, and exact rationals where the source multiplies by
  the power attack multiplier. The conditional modifiers (lines 429--447), the damage
  parts and the notes of a card, and the placing of a template are left out: nothing
  below reads them.
\<close>

subsection \<open>JavaScript helpers\<close>

text \<open>\<^verbatim>\<open>String.prototype.includes\<close>: the argument occurs as a contiguous substring.\<close>

fun str_includes :: "string \<Rightarrow> string \<Rightarrow> bool" where
  "str_includes [] t = (t = [])"
| "str_includes (c # cs) t = (take (length t) (c # cs) = t \<or> str_includes cs t)"

subsection \<open>Data\<close>

text \<open>\<^verbatim>\<open>atk.chargeCost\<close>: never assigned, \<^verbatim>\<open>null\<close>, or a number.\<close>

datatype chargeCostVal = CostUnset | CostNull | CostNum int

text \<open>An entry of \<^verbatim>\<open>shared.attacks\<close>. \<open>ammo\<close> is the id of \<^verbatim>\<open>atk.ammo\<close>.\<close>

record attack =
  atk_label :: string
  atk_attackBonus :: string
  atk_type :: string
  hasAmmo :: bool
  ammo :: "string option"
  chargeCost :: chargeCostVal

text \<open>The fields of the action that the module reads. An empty \<open>ammo_type\<close> is falsy.\<close>

record action =
  hasAttack :: bool
  ammo_type :: string
  ammo_cost :: int
  uses_perAttack :: bool
  isSelfCharged :: bool

text \<open>
  The roll data. \<open>bab\<close> is the top-level property \<^verbatim>\<open>rollData.bab\<close> (\<open>None\<close> when it is
  not defined); \<open>powerAttackPenalty\<close> is \<open>None\<close> when the computation gives \<^verbatim>\<open>NaN\<close>.
\<close>

record rollData =
  attributes_bab_total :: int
  bab :: "int option"
  action_powerAttack_damageBonus :: "rat option"
  rd_fullAttack :: int
  powerAttackBonus :: int
  powerAttackPenalty :: "int option"
  attackCount :: "nat option"

text \<open>An ammunition item of the actor; \<open>quantity\<close> is \<open>None\<close> when the property is missing.\<close>

record ammoItem =
  quantity :: "int option"
  abundant :: bool

datatype resource = Ammo | Charge | SelfUse

text \<open>A posted chat card: the step and the roll context it was built from.\<close>

record card =
  card_idx :: nat
  card_extraParts :: "string list option"
  card_powerAttackBonus :: int
  card_powerAttackPenalty :: "int option"

datatype button = NextBtn | SkipBtn | CancelBtn | CloseBtn

text \<open>
  Where a host call inside \<^verbatim>\<open>_resolveCurrentAttack\<close> throws, if one does. All of them
  come before the step is marked as resolved; the rendering of the dialog after it is
  taken not to throw.
\<close>

datatype throwPoint =
    Never
  | AtGetRollData
  | AtGetTargets
  | AtRoll
  | AtAmmoCommit
  | AtChargeCommit
  | AtSelfCharge
  | AtPost
  | AtPostUse

text \<open>What the host answers during one call of \<^verbatim>\<open>_resolveCurrentAttack\<close>.\<close>

record env =
  refreshed :: rollData
  paMult :: rat
  hookResult :: bool
  scriptReject :: bool
  throwAt :: throwPoint

text \<open>
  The tracker, the part of \<^verbatim>\<open>actionUse.shared\<close> it works on, and the host state it writes:
  the actor's items, the item's charges, the action's own uses, the chat log, the
  notifications, and the log of the writes made for each step.
\<close>

record tracker =
  allAttacks :: "attack list"
  currentIndex :: nat
  resolvedIndices :: "nat set"
  skippedIndices :: "nat set"
  completed :: bool
  promise :: "string option"
  dialogOpen :: bool
  rendered :: "button list"
  autoClose :: bool
  act :: action
  chargeLabel :: string
  shared_fullAttack :: bool
  shared_powerAttack :: bool
  formData_charge :: bool
  shared_charge :: bool
  attackBonus :: "string list"
  shared_attacks :: "attack option list"
  shared_rollData :: rollData
  totalChargeCost :: int
  items :: "string \<rightharpoonup> ammoItem"
  item_charges :: int
  selfUses :: int
  cards :: "card list"
  notifications :: "string list"
  commits :: "(nat \<times> resource) list"

subsection \<open>The planner\<close>

datatype planError = INSUFFICIENT_AMMO | INSUFFICIENT_CHARGES | REQUIREMENT int

text \<open>Lines 144--151: the ammo filter.\<close>

definition filterAmmo :: "action \<Rightarrow> attack list \<Rightarrow> planError + attack list" where
  "filterAmmo a atks =
     (if ammo_type a \<noteq> [] \<and> ammo_cost a > 0 then
        (let kept = filter hasAmmo atks in
         if length kept = 0 then Inl INSUFFICIENT_AMMO else Inr kept)
      else Inr atks)"

text \<open>Lines 163--166: the loop that marks every attack with its cost or \<^verbatim>\<open>null\<close>.\<close>

definition markCharges :: "int \<Rightarrow> int \<Rightarrow> attack list \<Rightarrow> attack list" where
  "markCharges charges cost atks =
     map (\<lambda>(index, atk).
            if charges \<ge> (int index + 1) * cost
            then atk\<lparr>chargeCost := CostNum cost\<rparr>
            else atk\<lparr>chargeCost := CostNull\<rparr>)
         (enumerate 0 atks)"

text \<open>Lines 159--172: the charge filter.\<close>

definition filterCharges :: "action \<Rightarrow> int \<Rightarrow> int \<Rightarrow> attack list \<Rightarrow> planError + attack list" where
  "filterCharges a cost charges atks =
     (if cost \<noteq> 0 \<and> uses_perAttack a then
        (let kept = filter (\<lambda>atk. chargeCost atk \<noteq> CostNull) (markCharges charges cost atks) in
         if length kept = 0 then Inl INSUFFICIENT_CHARGES else Inr kept)
      else Inr atks)"

text \<open>
  Lines 144--175. \<open>cost\<close> is \<^verbatim>\<open>rollData.chargeCost\<close> after \<^verbatim>\<open>prepareChargeCost\<close>, \<open>charges\<close>
  is \<^verbatim>\<open>item.charges\<close>, \<open>reqErr\<close> is what \<^verbatim>\<open>checkAttackRequirements\<close> returns.
\<close>

definition planAttacks :: "action \<Rightarrow> int \<Rightarrow> int \<Rightarrow> int \<Rightarrow> attack list \<Rightarrow> planError + attack list" where
  "planAttacks a cost charges reqErr atks =
     (case filterAmmo a atks of
        Inl e \<Rightarrow> Inl e
      | Inr atks1 \<Rightarrow>
          (case filterCharges a cost charges atks1 of
             Inl e \<Rightarrow> Inl e
           | Inr atks2 \<Rightarrow> if reqErr > 0 then Inl (REQUIREMENT reqErr) else Inr atks2))"

subsection \<open>The step context\<close>

definition chargeTag :: "tracker \<Rightarrow> string" where
  "chargeTag s = ''['' @ chargeLabel s @ '']''"

text \<open>Lines 404--410: after the first attack the charge selection and its bonus go.\<close>

definition clearCharge :: "nat \<Rightarrow> tracker \<Rightarrow> tracker" where
  "clearCharge idx s =
     (if idx > 0 \<and> formData_charge s then
        s\<lparr>formData_charge := False,
          shared_charge := False,
          attackBonus := filter (\<lambda>part. \<not> str_includes part (chargeTag s)) (attackBonus s)\<rparr>
      else s)"

text \<open>
  Lines 415--427. The bonus reads \<^verbatim>\<open>rollData.attributes.bab.total\<close>, the penalty reads
  \<^verbatim>\<open>rollData.bab\<close>.
\<close>

definition applyPowerAttack :: "bool \<Rightarrow> bool \<Rightarrow> rat \<Rightarrow> rollData \<Rightarrow> rollData" where
  "applyPowerAttack fullAtk pa mult rd =
     (let rd1 = rd\<lparr>rd_fullAttack := (if fullAtk then 1 else 0)\<rparr> in
      if pa then
        (let basePowerAttackBonus =
               (case action_powerAttack_damageBonus rd1 of Some b \<Rightarrow> b | None \<Rightarrow> 2);
             bonus0 = of_int (1 + attributes_bab_total rd1 div 4) * basePowerAttackBonus;
             bonus1 = \<lfloor>bonus0 * mult\<rfloor>;
             penalty = map_option (\<lambda>b. - (1 + b div 4)) (bab rd1)
         in rd1\<lparr>powerAttackBonus := bonus1, powerAttackPenalty := penalty\<rparr>)
      else rd1\<lparr>powerAttackBonus := 0, powerAttackPenalty := Some 0\<rparr>)"

text \<open>
  Lines 399--427: the roll data is taken fresh from the host, then the charge selection
  is cleared and the power attack values are written into the fresh roll data.
\<close>

definition stepContext :: "env \<Rightarrow> tracker \<Rightarrow> tracker" where
  "stepContext e s =
     (let s1 = clearCharge (currentIndex s) (s\<lparr>shared_rollData := refreshed e\<rparr>) in
      s1\<lparr>shared_rollData :=
            applyPowerAttack (shared_fullAttack s1) (shared_powerAttack s1) (paMult e)
              (shared_rollData s1)\<rparr>)"

text \<open>Line 473: the parts handed to the attack roll.\<close>

definition extraParts :: "tracker \<Rightarrow> attack \<Rightarrow> string list" where
  "extraParts s atk = attackBonus s @ [atk_attackBonus atk]"

subsection \<open>Resource writes\<close>

definition balance :: "ammoItem \<Rightarrow> int" where
  "balance it = (case quantity it of Some q \<Rightarrow> q | None \<Rightarrow> 0)"

text \<open>
  Lines 640--652. The result is \<open>Inl\<close> when the write to the actor throws; the write is
  the only call that can.
\<close>

definition subtractSingleAttackAmmo ::
    "bool \<Rightarrow> nat \<Rightarrow> attack \<Rightarrow> int \<Rightarrow> tracker \<Rightarrow> tracker + tracker" where
  "subtractSingleAttackAmmo fails idx atk ammoCost s =
     (if \<not> hasAttack (act s) then Inr s
      else if ammo_type (act s) = [] then Inr s
      else (case ammo atk of
              None \<Rightarrow> Inr s
            | Some aid \<Rightarrow>
                (case items s aid of
                   None \<Rightarrow> Inr s
                 | Some ammoItem \<Rightarrow>
                     if abundant ammoItem then Inr s
                     else if fails then Inl s
                     else
                       (let newQty = balance ammoItem - ammoCost in
                        Inr (s\<lparr>items := (items s)(aid \<mapsto> ammoItem\<lparr>quantity := Some newQty\<rparr>),
                                commits := commits s @ [(idx, Ammo)]\<rparr>)))))"

text \<open>Lines 553--557.\<close>

definition subtractCharges :: "bool \<Rightarrow> nat \<Rightarrow> attack \<Rightarrow> tracker \<Rightarrow> tracker + tracker" where
  "subtractCharges fails idx atk s =
     (case chargeCost atk of
        CostNum c \<Rightarrow>
          if c > 0 then
            (let s1 = s\<lparr>totalChargeCost := c\<rparr> in
             if fails then Inl s1
             else Inr (s1\<lparr>item_charges := item_charges s1 - c,
                          commits := commits s1 @ [(idx, Charge)]\<rparr>))
          else Inr s
      | _ \<Rightarrow> Inr s)"

text \<open>Lines 559--562.\<close>

definition subtractSelfUse :: "bool \<Rightarrow> nat \<Rightarrow> tracker \<Rightarrow> tracker + tracker" where
  "subtractSelfUse fails idx s =
     (if idx = 0 \<and> isSelfCharged (act s) then
        (if fails then Inl s
         else Inr (s\<lparr>selfUses := selfUses s - 1, commits := commits s @ [(idx, SelfUse)]\<rparr>))
      else Inr s)"

text \<open>Lines 564--577: the card is posted, then the post-use scripts and hooks run.\<close>

definition postCard :: "env \<Rightarrow> nat \<Rightarrow> attack \<Rightarrow> tracker \<Rightarrow> tracker + tracker" where
  "postCard e idx atk s =
     (if throwAt e = AtPost then Inl s
      else
        (let s1 = s\<lparr>cards := cards s @
                     [\<lparr>card_idx = idx,
                       card_extraParts =
                         (if atk_type atk \<noteq> ''manyshot'' then Some (extraParts s atk) else None),
                       card_powerAttackBonus = powerAttackBonus (shared_rollData s),
                       card_powerAttackPenalty = powerAttackPenalty (shared_rollData s)\<rparr>]\<rparr>
         in if throwAt e = AtPostUse then Inl s1 else Inr s1))"

text \<open>
  Lines 540--579: what runs unless the hook vetoes or a script call rejects. The ammunition
  is subtracted when the action has a cost and the attack has ammunition (lines 548--551).
\<close>

definition ammoStep :: "env \<Rightarrow> nat \<Rightarrow> attack \<Rightarrow> tracker \<Rightarrow> tracker + tracker" where
  "ammoStep e idx atk s =
     (if ammo_cost (act s) \<noteq> 0 \<and> hasAmmo atk
      then subtractSingleAttackAmmo (throwAt e = AtAmmoCommit) idx atk (ammo_cost (act s)) s
      else Inr s)"

definition commitAndPost :: "env \<Rightarrow> nat \<Rightarrow> attack \<Rightarrow> tracker \<Rightarrow> tracker + tracker" where
  "commitAndPost e idx atk s =
     (if hookResult e \<and> \<not> scriptReject e then
        (case ammoStep e idx atk s of
           Inl s' \<Rightarrow> Inl s'
         | Inr s1 \<Rightarrow>
             (case subtractCharges (throwAt e = AtChargeCommit) idx atk s1 of
                Inl s' \<Rightarrow> Inl s'
              | Inr s2 \<Rightarrow>
                  (case subtractSelfUse (throwAt e = AtSelfCharge) idx s2 of
                     Inl s' \<Rightarrow> Inl s'
                   | Inr s3 \<Rightarrow> postCard e idx atk s3)))
      else Inr s)"

subsection \<open>The tracker\<close>

text \<open>Lines 330--340: the buttons of the tracker body.\<close>

definition buildButtons :: "tracker \<Rightarrow> button list" where
  "buildButtons s = (if \<not> completed s then [NextBtn, SkipBtn, CancelBtn] else [CloseBtn])"

text \<open>The promise of \<^verbatim>\<open>run()\<close> keeps the first value it is resolved with.\<close>

definition resolvePromise :: "string \<Rightarrow> tracker \<Rightarrow> tracker" where
  "resolvePromise v s = (case promise s of None \<Rightarrow> s\<lparr>promise := Some v\<rparr> | Some _ \<Rightarrow> s)"

text \<open>
  \<^verbatim>\<open>dialog.close()\<close>: the dialog's \<^verbatim>\<open>close\<close> callback of lines 261--266 runs, then the
  window and its buttons are gone.
\<close>

definition closeDialog :: "tracker \<Rightarrow> tracker" where
  "closeDialog s =
     (if dialogOpen s then
        (let s1 = (if \<not> completed s then resolvePromise ''cancelled'' s else s)
         in s1\<lparr>dialogOpen := False, rendered := []\<rparr>)
      else s)"

text \<open>Lines 616--635: the body is rendered again; a completed tracker schedules its closing.\<close>

definition updateDialog :: "tracker \<Rightarrow> tracker" where
  "updateDialog s =
     (if \<not> dialogOpen s then s
      else
        (let s1 = s\<lparr>rendered := buildButtons s\<rparr>
         in if completed s1 then s1\<lparr>autoClose := True\<rparr> else s1))"

text \<open>Lines 581--598: the end of a call that did not throw.\<close>

definition markResolved :: "nat \<Rightarrow> attack option list \<Rightarrow> tracker \<Rightarrow> tracker" where
  "markResolved idx origAttacks s =
     (let s1 = s\<lparr>shared_attacks := origAttacks,
                 shared_rollData := (shared_rollData s)\<lparr>attackCount := None\<rparr>,
                 resolvedIndices := insert idx (resolvedIndices s),
                 currentIndex := idx + 1\<rparr>;
          s2 = (if currentIndex s1 \<ge> length (allAttacks s1) then s1\<lparr>completed := True\<rparr> else s1)
      in updateDialog s2)"

text \<open>
  Lines 455--461: \<^verbatim>\<open>shared.attacks\<close> is narrowed to the current attack, which is
  undefined past the last one.
\<close>

definition isolateAttack :: "nat \<Rightarrow> tracker \<Rightarrow> tracker" where
  "isolateAttack idx s =
     s\<lparr>shared_attacks :=
         [if idx < length (allAttacks s) then Some (allAttacks s ! idx) else None],
       shared_rollData := (shared_rollData s)\<lparr>attackCount := Some idx\<rparr>\<rparr>"

text \<open>
  Line 517 reads \<^verbatim>\<open>atk.ammo.id\<close> of an attack flagged \<^verbatim>\<open>hasAmmo\<close>, which throws when the
  attack has no \<^verbatim>\<open>ammo\<close>.
\<close>

definition missingAmmo :: "attack \<Rightarrow> bool" where
  "missingAmmo atk = (hasAmmo atk \<and> ammo atk = None)"

text \<open>
  Lines 386--599. \<open>Inl\<close> is the state left behind by a call that throws. Past the last
  attack \<^verbatim>\<open>atk\<close> is undefined and reading \<^verbatim>\<open>atk.label\<close> at line 465 throws.
\<close>

definition resolveCurrentAttack :: "env \<Rightarrow> tracker \<Rightarrow> tracker + tracker" where
  "resolveCurrentAttack e s =
     (let idx = currentIndex s in
      if throwAt e = AtGetRollData then Inl s
      else
        (let s1 = stepContext e s in
         if throwAt e = AtGetTargets then Inl s1
         else
           (let s2 = isolateAttack idx s1
            in if idx < length (allAttacks s) then
                 (if throwAt e = AtRoll then Inl s2
                  else if missingAmmo (allAttacks s ! idx) then Inl s2
                  else
                    (case commitAndPost e idx (allAttacks s ! idx) s2 of
                       Inl s' \<Rightarrow> Inl s'
                     | Inr s3 \<Rightarrow> Inr (markResolved idx (shared_attacks s1) s3)))
               else Inl s2)))"

text \<open>Lines 604--614.\<close>

definition skipCurrentAttack :: "tracker \<Rightarrow> tracker" where
  "skipCurrentAttack s =
     (let idx = currentIndex s;
          s1 = s\<lparr>skippedIndices := insert idx (skippedIndices s), currentIndex := idx + 1\<rparr>;
          s2 = (if currentIndex s1 \<ge> length (allAttacks s1) then s1\<lparr>completed := True\<rparr> else s1)
      in updateDialog s2)"

text \<open>
  Lines 347--381: the listeners, each run from the click to its end. The Next listener
  catches what the call throws and notifies the user; the button it disabled is enabled
  again in either case. The call it waits for is taken apart at its wait further down,
  under the calls in flight.
\<close>

datatype command = Advance env | Skip | Cancel | Done | CloseWindow | Timer

definition handler :: "command \<Rightarrow> tracker \<Rightarrow> tracker" where
  "handler c s =
     (case c of
        Advance e \<Rightarrow>
          (case resolveCurrentAttack e s of
             Inr s' \<Rightarrow> s'
           | Inl s' \<Rightarrow> s'\<lparr>notifications := notifications s' @ [''Error resolving attack. Check console.'']\<rparr>)
      | Skip \<Rightarrow> skipCurrentAttack s
      | Cancel \<Rightarrow> closeDialog (resolvePromise ''cancelled'' (s\<lparr>completed := True\<rparr>))
      | Done \<Rightarrow> resolvePromise ''completed'' (closeDialog (s\<lparr>completed := True\<rparr>))
      | CloseWindow \<Rightarrow> closeDialog s
      | Timer \<Rightarrow> (if dialogOpen s then closeDialog (resolvePromise ''completed'' s) else s))"

text \<open>A command reaches its listener only through what is on the screen.\<close>

definition available :: "tracker \<Rightarrow> command \<Rightarrow> bool" where
  "available s c =
     (case c of
        Advance e \<Rightarrow> NextBtn \<in> set (rendered s)
      | Skip \<Rightarrow> SkipBtn \<in> set (rendered s)
      | Cancel \<Rightarrow> CancelBtn \<in> set (rendered s)
      | Done \<Rightarrow> CloseBtn \<in> set (rendered s)
      | CloseWindow \<Rightarrow> dialogOpen s
      | Timer \<Rightarrow> autoClose s)"

definition dispatch :: "command \<Rightarrow> tracker \<Rightarrow> tracker" where
  "dispatch c s = (if available s c then handler c s else s)"

definition runHandlers :: "command list \<Rightarrow> tracker \<Rightarrow> tracker" where
  "runHandlers cs s = foldl (\<lambda>s c. handler c s) s cs"

definition runUI :: "command list \<Rightarrow> tracker \<Rightarrow> tracker" where
  "runUI cs s = foldl (\<lambda>s c. dispatch c s) s cs"

text \<open>
  Lines 192--196 and 222--230: the constructor and the first rendering. The host state is
  taken from \<open>host\<close> as it is.
\<close>

definition startTracker :: "tracker \<Rightarrow> attack list \<Rightarrow> tracker" where
  "startTracker host atks =
     host\<lparr>allAttacks := atks,
          currentIndex := 0,
          resolvedIndices := {},
          skippedIndices := {},
          completed := False,
          promise := None,
          dialogOpen := True,
          rendered := [NextBtn, SkipBtn, CancelBtn],
          autoClose := False\<rparr>"

datatype phase = Running | Completed | Cancelled

definition phaseOf :: "tracker \<Rightarrow> phase" where
  "phaseOf s =
     (if promise s = Some ''cancelled'' then Cancelled
      else if completed s then Completed
      else Running)"

subsection \<open>Calls in flight\<close>

text \<open>
  \<^verbatim>\<open>_resolveCurrentAttack\<close> is asynchronous, and so is the Next listener that waits for it.
  A click on Next runs the call up to its first wait (line 450); the rest of it runs when
  the host has answered. \<open>resolveCurrentAttack\<close> and \<open>handler\<close> above are the call and its
  listener with nothing else happening in between. Here the two halves are apart, so that
  a click can come while a call waits: the listener disables only the Next button that
  was clicked (lines 350--351), the Skip and Cancel buttons stay live, and every rendering
  of the body (lines 621--622) puts a fresh Next button on the screen.

  Lines 450--599: what a call does after its first wait, with the index \<open>idx\<close> it read at
  line 387. The later waits of one call (lines 472--572) are not taken apart: the rest of
  the call is one step, and the index, the two sets and the completion flag are written
  at its very end (lines 589--594).
\<close>

definition resolveTail :: "env \<Rightarrow> nat \<Rightarrow> tracker \<Rightarrow> tracker + tracker" where
  "resolveTail e idx s1 =
     (if throwAt e = AtGetTargets then Inl s1
      else
        (let s2 = isolateAttack idx s1
         in if idx < length (allAttacks s1) then
              (if throwAt e = AtRoll then Inl s2
               else if missingAmmo (allAttacks s1 ! idx) then Inl s2
               else
                 (case commitAndPost e idx (allAttacks s1 ! idx) s2 of
                    Inl s' \<Rightarrow> Inl s'
                  | Inr s3 \<Rightarrow> Inr (markResolved idx (shared_attacks s1) s3)))
            else Inl s2))"

text \<open>
  A call that waits: the index of line 387, the answers of the host, the roll data object
  of line 400 that the call holds (its contents and which object it is), and the Next
  button that its listener disabled (the rendering it belongs to).
\<close>

record call =
  call_idx :: nat
  call_env :: env
  call_rollData :: rollData
  call_rollDataNo :: nat
  call_button :: nat

text \<open>
  The tracker with its calls in flight. \<open>nextDisabled\<close> is the \<^verbatim>\<open>disabled\<close> property of the
  Next button on the screen, \<open>renderNo\<close> counts the renderings of the body, \<open>rollDataNo\<close>
  counts the roll data objects that \<^verbatim>\<open>getRollData\<close> has made.
\<close>

record live =
  trk :: tracker
  inFlight :: "call list"
  nextDisabled :: bool
  renderNo :: nat
  rollDataNo :: nat

text \<open>
  After \<^verbatim>\<open>_updateDialog\<close>: when the dialog is open the body has been replaced, and the
  Next button in it is a new, enabled one.
\<close>

definition rerender :: "tracker \<Rightarrow> live \<Rightarrow> live" where
  "rerender s' a =
     (if dialogOpen s' then a\<lparr>trk := s', renderNo := Suc (renderNo a), nextDisabled := False\<rparr>
      else a\<lparr>trk := s'\<rparr>)"

text \<open>
  Lines 349--351 and 387--450: the listener disables the button and the call runs to its
  first wait. A throw of \<^verbatim>\<open>getRollData\<close> is caught at once: the user is notified and the
  button is enabled again.
\<close>

definition beginCall :: "env \<Rightarrow> live \<Rightarrow> live" where
  "beginCall e a =
     (let s = trk a in
      if throwAt e = AtGetRollData then
        a\<lparr>trk := s\<lparr>notifications := notifications s @
                      [''Error resolving attack. Check console.'']\<rparr>\<rparr>
      else
        (let s1 = stepContext e s in
         a\<lparr>trk := s1,
           nextDisabled := True,
           rollDataNo := Suc (rollDataNo a),
           inFlight := inFlight a @
             [\<lparr>call_idx = currentIndex s, call_env = e, call_rollData = shared_rollData s1,
               call_rollDataNo = Suc (rollDataNo a), call_button = renderNo a\<rparr>]\<rparr>))"

text \<open>
  Lines 450--599 and 354--360: the rest of the call \<open>c\<close>, then the \<^verbatim>\<open>catch\<close> and
  \<^verbatim>\<open>finally\<close> blocks of its listener. The call works on the roll data object it holds;
  \<^verbatim>\<open>shared.rollData\<close> is that object unless a later call has replaced it. The \<^verbatim>\<open>finally\<close>
  block enables the button the listener disabled, which is on the screen only if the body
  has not been rendered since.
\<close>

definition endCall :: "call \<Rightarrow> live \<Rightarrow> live" where
  "endCall c a =
     (let s = trk a;
          keep = (\<lambda>s'. if call_rollDataNo c = rollDataNo a then s'
                       else s'\<lparr>shared_rollData := shared_rollData s\<rparr>);
          reenable = (\<lambda>a'. if call_button c = renderNo a' then a'\<lparr>nextDisabled := False\<rparr>
                           else a')
      in case resolveTail (call_env c) (call_idx c) (s\<lparr>shared_rollData := call_rollData c\<rparr>) of
           Inr s' \<Rightarrow> reenable (rerender (keep s') a)
         | Inl s' \<Rightarrow>
             reenable
               (a\<lparr>trk := (keep s')\<lparr>notifications := notifications s' @
                            [''Error resolving attack. Check console.'']\<rparr>\<rparr>))"

text \<open>
  What happens to the dialog: a click on a button (it reaches its listener only if the
  button is on the screen, and for Next only if it is enabled), the call number \<open>k\<close> of
  those in flight going on after its wait, the closing of the window, the timer.
\<close>

datatype event =
    ClickNext env
  | Resume nat
  | ClickSkip
  | ClickCancel
  | ClickDone
  | CloseX
  | TimerFires

definition liveStep :: "event \<Rightarrow> live \<Rightarrow> live" where
  "liveStep ev a =
     (case ev of
        ClickNext e \<Rightarrow>
          if available (trk a) (Advance e) \<and> \<not> nextDisabled a then beginCall e a else a
      | Resume k \<Rightarrow>
          if k < length (inFlight a) then
            endCall (inFlight a ! k)
              (a\<lparr>inFlight := take k (inFlight a) @ drop (Suc k) (inFlight a)\<rparr>)
          else a
      | ClickSkip \<Rightarrow>
          if available (trk a) Skip then rerender (skipCurrentAttack (trk a)) a else a
      | ClickCancel \<Rightarrow> a\<lparr>trk := dispatch Cancel (trk a)\<rparr>
      | ClickDone \<Rightarrow> a\<lparr>trk := dispatch Done (trk a)\<rparr>
      | CloseX \<Rightarrow> a\<lparr>trk := dispatch CloseWindow (trk a)\<rparr>
      | TimerFires \<Rightarrow> a\<lparr>trk := dispatch Timer (trk a)\<rparr>)"

definition runEvents :: "event list \<Rightarrow> live \<Rightarrow> live" where
  "runEvents evs a = foldl (\<lambda>a ev. liveStep ev a) a evs"

definition startLive :: "tracker \<Rightarrow> attack list \<Rightarrow> live" where
  "startLive host atks =
     \<lparr>trk = startTracker host atks, inFlight = [], nextDisabled = False, renderNo = 0,
      rollDataNo = 0\<rparr>"

text \<open>
  The events of commands that are taken one at a time: every call of
  \<^verbatim>\<open>_resolveCurrentAttack\<close> goes on to its end before the next click.
\<close>

fun serialOf :: "command \<Rightarrow> event list" where
  "serialOf (Advance e) = [ClickNext e, Resume 0]"
| "serialOf Skip = [ClickSkip]"
| "serialOf Cancel = [ClickCancel]"
| "serialOf Done = [ClickDone]"
| "serialOf CloseWindow = [CloseX]"
| "serialOf Timer = [TimerFires]"

definition serial :: "command list \<Rightarrow> event list" where
  "serial cs = concat (map serialOf cs)"

text \<open>No call is in flight and the Next button, if there is one, is enabled.\<close>

definition quiet :: "live \<Rightarrow> bool" where
  "quiet a = (inFlight a = [] \<and> \<not> nextDisabled a)"

subsection \<open>The chat card variant\<close>

text \<open>
  The second script of the module posts a chat card with one button for each attack. A
  click narrows \<^verbatim>\<open>attackParts\<close> of the action to the one attack, rolls, and restores the
  parts. An element of \<^verbatim>\<open>attackParts\<close> is a pair of a bonus and a label; reading past the
  array gives \<^verbatim>\<open>undefined\<close>.
\<close>

datatype attackPart = Undefined | Part string string

text \<open>
  The action has its data under \<^verbatim>\<open>system\<close> or, in the older layout, under \<^verbatim>\<open>data\<close>. Each
  is \<open>None\<close> when the action has no such object, and holds \<open>None\<close> when the object has no
  \<^verbatim>\<open>attackParts\<close>.
\<close>

record itemAction =
  act_system :: "attackPart list option option"
  act_data :: "attackPart list option option"

text \<open>Lines 31--33.\<close>

definition getAttackParts :: "itemAction \<Rightarrow> attackPart list" where
  "getAttackParts a =
     (case act_system a of
        Some (Some ps) \<Rightarrow> ps
      | _ \<Rightarrow> (case act_data a of Some (Some ps) \<Rightarrow> ps | _ \<Rightarrow> []))"

text \<open>Lines 167--171 and 180--184: the parts are written to the object that exists.\<close>

definition setAttackParts :: "attackPart list \<Rightarrow> itemAction \<Rightarrow> itemAction" where
  "setAttackParts ps a =
     (if act_system a \<noteq> None then a\<lparr>act_system := Some (Some ps)\<rparr>
      else if act_data a \<noteq> None then a\<lparr>act_data := Some (Some ps)\<rparr>
      else a)"

definition hasContainer :: "itemAction \<Rightarrow> bool" where
  "hasContainer a = (act_system a \<noteq> None \<or> act_data a \<noteq> None)"

text \<open>
  A roll that has been started and has not returned yet: the button that was clicked and
  the copy \<^verbatim>\<open>origParts\<close> of line 149 that its \<^verbatim>\<open>finally\<close> block will write back.
\<close>

record roll =
  roll_button :: nat
  roll_origParts :: "attackPart list"

text \<open>
  The module variable \<^verbatim>\<open>_pendingSingleAttack\<close> (its \<^verbatim>\<open>actionId\<close>, or \<open>None\<close> for
  \<^verbatim>\<open>null\<close>), the action the lookup of lines 136--138 finds, the buttons of the card that
  are disabled and marked as used, the warnings shown to the user, and the rolls that
  have not returned yet.
\<close>

record chatState =
  pendingSingleAttack :: "string option"
  theAction :: "itemAction option"
  usedButtons :: "nat set"
  ui_warnings :: "string list"
  rolling :: "roll list"

text \<open>
  Line 130: \<^verbatim>\<open>parseInt\<close> gives a number or \<^verbatim>\<open>NaN\<close> (\<open>None\<close>). Line 154: the index is
  out of range when it is above the number of parts; \<^verbatim>\<open>NaN\<close> is not.
\<close>

definition outOfRange :: "int option \<Rightarrow> attackPart list \<Rightarrow> bool" where
  "outOfRange attackIndex origParts =
     (case attackIndex of None \<Rightarrow> False | Some i \<Rightarrow> i > int (length origParts))"

text \<open>Line 160.\<close>

definition singlePart :: "int option \<Rightarrow> attackPart list \<Rightarrow> attackPart list" where
  "singlePart attackIndex origParts =
     (if attackIndex = Some 0 then []
      else [case attackIndex of
              None \<Rightarrow> Undefined
            | Some i \<Rightarrow>
                if 0 \<le> i - 1 \<and> i - 1 < int (length origParts)
                then origParts ! nat (i - 1) else Undefined])"

text \<open>
  The click listener of lines 126--187 is asynchronous: it runs up to the wait for
  \<^verbatim>\<open>action.use\<close> at line 173, and its \<^verbatim>\<open>catch\<close> and \<^verbatim>\<open>finally\<close> blocks run when the roll
  has returned. Only the button that was clicked is disabled (line 146), so another
  button of the card can be clicked while the roll is under way.

  Lines 126--173, up to the wait. \<open>b\<close> is the button, \<open>attackIndex\<close> its parsed
  \<^verbatim>\<open>data-index\<close>.
\<close>

definition beginRoll :: "string \<Rightarrow> nat \<Rightarrow> int option \<Rightarrow> chatState \<Rightarrow> chatState" where
  "beginRoll actionId b attackIndex st =
     (case theAction st of
        None \<Rightarrow>
          st\<lparr>ui_warnings := ui_warnings st @
               [''pf1-sequential-attacks | Could not find the action to roll.'']\<rparr>
      | Some action \<Rightarrow>
          (let st1 = st\<lparr>usedButtons := insert b (usedButtons st)\<rparr>;
               origParts = getAttackParts action
           in if outOfRange attackIndex origParts then
                st1\<lparr>usedButtons := usedButtons st1 - {b}\<rparr>
              else
                st1\<lparr>pendingSingleAttack := Some actionId,
                    theAction := Some (setAttackParts (singlePart attackIndex origParts) action),
                    rolling := rolling st1 @ [\<lparr>roll_button = b, roll_origParts = origParts\<rparr>]\<rparr>))"

text \<open>
  Lines 174--186, after the wait. \<open>use\<close> is \<^verbatim>\<open>action.use\<close> of the host: it returns the
  action as the roll leaves it, and whether it threw. The listener holds the action it
  found at the click; were it gone from the state, only the flag would be left to clear.
\<close>

definition endRoll :: "(itemAction \<Rightarrow> itemAction \<times> bool) \<Rightarrow> roll \<Rightarrow> chatState \<Rightarrow> chatState" where
  "endRoll use r st =
     (case theAction st of
        None \<Rightarrow> st\<lparr>pendingSingleAttack := None\<rparr>
      | Some action \<Rightarrow>
          (let rolled = use action;
               st1 = (if snd rolled then st\<lparr>usedButtons := usedButtons st - {roll_button r}\<rparr>
                      else st)
           in st1\<lparr>theAction := Some (setAttackParts (roll_origParts r) (fst rolled)),
                  pendingSingleAttack := None\<rparr>))"

text \<open>
  What happens to a card: a click on a button reaches the listener unless the button is
  disabled; the roll number \<open>k\<close> of those under way returns.
\<close>

datatype chatEvent =
    ClickRoll nat "int option"
  | RollReturns nat "itemAction \<Rightarrow> itemAction \<times> bool"

definition chatStep :: "string \<Rightarrow> chatEvent \<Rightarrow> chatState \<Rightarrow> chatState" where
  "chatStep actionId ev st =
     (case ev of
        ClickRoll b attackIndex \<Rightarrow>
          if b \<in> usedButtons st then st else beginRoll actionId b attackIndex st
      | RollReturns k use \<Rightarrow>
          if k < length (rolling st) then
            endRoll use (rolling st ! k)
              (st\<lparr>rolling := take k (rolling st) @ drop (Suc k) (rolling st)\<rparr>)
          else st)"

definition runChat :: "string \<Rightarrow> chatEvent list \<Rightarrow> chatState \<Rightarrow> chatState" where
  "runChat actionId evs st = foldl (\<lambda>st ev. chatStep actionId ev st) st evs"

text \<open>One click whose roll returns before anything else happens to the card.\<close>

definition onRollClick ::
    "(itemAction \<Rightarrow> itemAction \<times> bool) \<Rightarrow> string \<Rightarrow> nat \<Rightarrow> int option \<Rightarrow> chatState \<Rightarrow> chatState" where
  "onRollClick use actionId b attackIndex st =
     runChat actionId [ClickRoll b attackIndex, RollReturns 0 use] st"

subsection \<open>Views of the state and invariants of a run\<close>

text \<open>The state a call leaves behind, whether it returned or threw.\<close>

definition stateOf :: "tracker + tracker \<Rightarrow> tracker" where
  "stateOf r = (case r of Inl s \<Rightarrow> s | Inr s \<Rightarrow> s)"

definition sameControl :: "tracker \<Rightarrow> tracker \<Rightarrow> bool" where
  "sameControl s s' =
     (allAttacks s' = allAttacks s \<and> currentIndex s' = currentIndex s \<and>
      resolvedIndices s' = resolvedIndices s \<and> skippedIndices s' = skippedIndices s \<and>
      completed s' = completed s \<and> promise s' = promise s \<and>
      dialogOpen s' = dialogOpen s \<and> rendered s' = rendered s \<and>
      autoClose s' = autoClose s \<and> act s' = act s \<and> chargeLabel s' = chargeLabel s \<and>
      notifications s' = notifications s)"

definition sameWorld :: "tracker \<Rightarrow> tracker \<Rightarrow> bool" where
  "sameWorld s s' =
     (items s' = items s \<and> item_charges s' = item_charges s \<and> selfUses s' = selfUses s \<and>
      cards s' = cards s \<and> commits s' = commits s)"

definition sameChargeSelection :: "tracker \<Rightarrow> tracker \<Rightarrow> bool" where
  "sameChargeSelection s s' =
     (formData_charge s' = formData_charge s \<and> shared_charge s' = shared_charge s \<and>
      attackBonus s' = attackBonus s)"

text \<open>Every index below the current one is resolved or skipped, and never both.\<close>

definition indexInv :: "tracker \<Rightarrow> bool" where
  "indexInv s =
     (resolvedIndices s \<inter> skippedIndices s = {} \<and>
      resolvedIndices s \<union> skippedIndices s = {0..<currentIndex s})"

text \<open>\<^verbatim>\<open>shared.attackBonus\<close> without the parts that carry the charge tag.\<close>

definition withoutCharge :: "tracker \<Rightarrow> string list" where
  "withoutCharge s = filter (\<lambda>part. \<not> str_includes part (chargeTag s)) (attackBonus s)"

text \<open>
  The selection of the dialog (\<open>host\<close> is the state at the start) is either still as it
  was, or it has been cleared by a step after the first.
\<close>

definition chargeInv :: "tracker \<Rightarrow> tracker \<Rightarrow> bool" where
  "chargeInv host s =
     (chargeLabel s = chargeLabel host \<and>
      ((formData_charge s \<and> shared_charge s = shared_charge host \<and>
        attackBonus s = attackBonus host) \<or>
       (0 < currentIndex s \<and> \<not> formData_charge s \<and> \<not> shared_charge s \<and>
        attackBonus s = withoutCharge host)))"

text \<open>A throw before the first write of the step.\<close>

definition beforeCommit :: "throwPoint \<Rightarrow> bool" where
  "beforeCommit tp = (tp = Never \<or> tp = AtGetRollData \<or> tp = AtGetTargets \<or> tp = AtRoll)"

definition earlyThrows :: "command list \<Rightarrow> bool" where
  "earlyThrows cs =
     list_all (\<lambda>c. case c of Advance e \<Rightarrow> beforeCommit (throwAt e) | _ \<Rightarrow> True) cs"

text \<open>
  The writes of one step that is not vetoed: whether the ammunition item is written, the
  list of the writes in their order, and the items and the charges after them.
\<close>

definition ammoWritten :: "tracker \<Rightarrow> attack \<Rightarrow> bool" where
  "ammoWritten s atk =
     (ammo_cost (act s) \<noteq> 0 \<and> hasAmmo atk \<and> hasAttack (act s) \<and> ammo_type (act s) \<noteq> [] \<and>
      (case ammo atk of
         None \<Rightarrow> False
       | Some aid \<Rightarrow> (case items s aid of None \<Rightarrow> False | Some it \<Rightarrow> \<not> abundant it)))"

definition chargeWritten :: "attack \<Rightarrow> bool" where
  "chargeWritten atk = (case chargeCost atk of CostNum c \<Rightarrow> 0 < c | _ \<Rightarrow> False)"

definition stepWrites :: "tracker \<Rightarrow> nat \<Rightarrow> attack \<Rightarrow> (nat \<times> resource) list" where
  "stepWrites s i atk =
     (if ammoWritten s atk then [(i, Ammo)] else []) @
     (if chargeWritten atk then [(i, Charge)] else []) @
     (if i = 0 \<and> isSelfCharged (act s) then [(i, SelfUse)] else [])"

definition itemsAfter :: "tracker \<Rightarrow> attack \<Rightarrow> (string \<rightharpoonup> ammoItem)" where
  "itemsAfter s atk =
     (case ammo atk of
        None \<Rightarrow> items s
      | Some aid \<Rightarrow>
          (case items s aid of
             None \<Rightarrow> items s
           | Some it \<Rightarrow>
               if ammoWritten s atk
               then (items s)(aid \<mapsto> it\<lparr>quantity := Some (balance it - ammo_cost (act s))\<rparr>)
               else items s))"

definition chargesAfter :: "tracker \<Rightarrow> attack \<Rightarrow> int" where
  "chargesAfter s atk =
     (case chargeCost atk of
        CostNum c \<Rightarrow> if 0 < c then item_charges s - c else item_charges s
      | _ \<Rightarrow> item_charges s)"

text \<open>Every write and every card belongs to a resolved step, and none is repeated.\<close>

definition commitInv :: "tracker \<Rightarrow> bool" where
  "commitInv s =
     (distinct (commits s) \<and> list_all (\<lambda>w. fst w \<in> resolvedIndices s) (commits s) \<and>
      distinct (map card_idx (cards s)) \<and>
      list_all (\<lambda>c. card_idx c \<in> resolvedIndices s) (cards s))"

text \<open>The planned attacks from the current one on that draw on the item \<open>aid\<close>.\<close>

definition remaining :: "tracker \<Rightarrow> string \<Rightarrow> nat" where
  "remaining s aid =
     length (filter (\<lambda>atk. hasAmmo atk \<and> ammo atk = Some aid)
               (drop (currentIndex s) (allAttacks s)))"

text \<open>The balance of the item \<open>aid\<close> pays for the attacks that still draw on it.\<close>

definition covers :: "tracker \<Rightarrow> string \<Rightarrow> bool" where
  "covers s aid =
     (case items s aid of
        None \<Rightarrow> True
      | Some it \<Rightarrow> abundant it \<or> ammo_cost (act s) * int (remaining s aid) \<le> balance it)"

definition nonNegative :: "tracker \<Rightarrow> string \<Rightarrow> bool" where
  "nonNegative s aid =
     (case items s aid of None \<Rightarrow> True | Some it \<Rightarrow> abundant it \<or> 0 \<le> balance it)"

text \<open>
  The ledger against the log of the writes: the charges and the rounds of ammunition of
  the item \<open>aid\<close> that the logged writes took.
\<close>

definition costOf :: "attack \<Rightarrow> int" where
  "costOf atk = (case chargeCost atk of CostNum c \<Rightarrow> c | _ \<Rightarrow> 0)"

definition chargesLogged :: "attack list \<Rightarrow> (nat \<times> resource) list \<Rightarrow> int" where
  "chargesLogged atks ws =
     sum_list (map (\<lambda>w. if snd w = Charge then costOf (atks ! fst w) else 0) ws)"

definition ammoLogged :: "attack list \<Rightarrow> string \<Rightarrow> (nat \<times> resource) list \<Rightarrow> nat" where
  "ammoLogged atks aid ws =
     length (filter (\<lambda>w. snd w = Ammo \<and> ammo (atks ! fst w) = Some aid) ws)"

text \<open>
  The charges of the item are those of the start less the logged ones; the item \<open>aid\<close>
  is there and abundant as at the start, and its balance is that of the start less the
  cost of each logged write.
\<close>

definition chargesPinned :: "tracker \<Rightarrow> tracker \<Rightarrow> bool" where
  "chargesPinned host s =
     (item_charges s = item_charges host - chargesLogged (allAttacks s) (commits s))"

definition itemPinned :: "tracker \<Rightarrow> tracker \<Rightarrow> string \<Rightarrow> bool" where
  "itemPinned host s aid =
     (map_option abundant (items s aid) = map_option abundant (items host aid) \<and>
      map_option balance (items s aid) =
        map_option
          (\<lambda>it. balance it - ammo_cost (act host) * int (ammoLogged (allAttacks s) aid (commits s)))
          (items host aid))"

text \<open>What is on the screen of a tracker that is closed, settled or completed.\<close>

definition gateInv :: "tracker \<Rightarrow> bool" where
  "gateInv s =
     ((dialogOpen s \<or> rendered s = []) \<and>
      (promise s = None \<or> \<not> dialogOpen s) \<and>
      (\<not> completed s \<or> (NextBtn \<notin> set (rendered s) \<and> SkipBtn \<notin> set (rendered s))))"

subsection \<open>Concrete inputs\<close>

definition exAttack :: "string \<Rightarrow> bool \<Rightarrow> attack" where
  "exAttack l h =
     \<lparr>atk_label = l, atk_attackBonus = ''-5'', atk_type = ''weapon'', hasAmmo = h,
      ammo = (if h then Some ''arrows'' else None), chargeCost = CostUnset\<rparr>"

definition exAction :: action where
  "exAction =
     \<lparr>hasAttack = True, ammo_type = ''arrow'', ammo_cost = 1, uses_perAttack = True,
      isSelfCharged = False\<rparr>"

definition exRollData :: "int \<Rightarrow> int option \<Rightarrow> rollData" where
  "exRollData babTotal b =
     \<lparr>attributes_bab_total = babTotal, bab = b, action_powerAttack_damageBonus = Some 2,
      rd_fullAttack = 0, powerAttackBonus = 0, powerAttackPenalty = Some 0,
      attackCount = None\<rparr>"

definition exEnv :: "int \<Rightarrow> int option \<Rightarrow> throwPoint \<Rightarrow> env" where
  "exEnv babTotal b tp =
     \<lparr>refreshed = exRollData babTotal b, paMult = 3 / 2, hookResult = True,
      scriptReject = False, throwAt = tp\<rparr>"

definition exHost :: tracker where
  "exHost =
     \<lparr>allAttacks = [], currentIndex = 0, resolvedIndices = {}, skippedIndices = {},
      completed = False, promise = None, dialogOpen = False, rendered = [],
      autoClose = False, act = exAction, chargeLabel = ''Charge'',
      shared_fullAttack = True, shared_powerAttack = True, formData_charge = True,
      shared_charge = True, attackBonus = [''2[Charge]'', ''1[Bless]''],
      shared_attacks = [], shared_rollData = exRollData 8 (Some 8), totalChargeCost = 0,
      items = [''arrows'' \<mapsto> \<lparr>quantity = Some 2, abundant = False\<rparr>],
      item_charges = 2, selfUses = 1, cards = [], notifications = [], commits = []\<rparr>"

definition exItemAction :: itemAction where
  "exItemAction =
     \<lparr>act_system = Some (Some [Part ''-5'' ''Second'', Part ''-10'' ''Third'']),
      act_data = None\<rparr>"

definition exChat :: chatState where
  "exChat =
     \<lparr>pendingSingleAttack = None, theAction = Some exItemAction, usedButtons = {},
      ui_warnings = [], rolling = []\<rparr>"

text \<open>A roll that empties the parts it was given and throws.\<close>

definition exUse :: "itemAction \<Rightarrow> itemAction \<times> bool" where
  "exUse a = (a\<lparr>act_system := Some (Some [])\<rparr>, True)"

text \<open>A roll that leaves the action as it is and returns.\<close>

definition okUse :: "itemAction \<Rightarrow> itemAction \<times> bool" where
  "okUse a = (a, False)"

section \<open>The planner's filters\<close>

lemma int_mult_le_iff_le_div:
  assumes "0 < (c::int)"
  shows "(n * c \<le> m) = (n \<le> m div c)"
proof
  assume "n * c \<le> m"
  then have "(n * c) div c \<le> m div c" using assms by (rule zdiv_mono1)
  then show "n \<le> m div c" using assms by simp
next
  assume "n \<le> m div c"
  then have "n * c \<le> (m div c) * c" using assms by (simp add: mult_right_mono)
  also have "\<dots> \<le> m"
  proof -
    have "(m div c) * c + m mod c = m" by simp
    moreover have "0 \<le> m mod c" using assms by simp
    ultimately show ?thesis by linarith
  qed
  finally show "n * c \<le> m" .
qed

lemma affordable_iff:
  assumes "0 < (cost::int)"
  shows "(charges \<ge> (int i + 1) * cost) = (i < nat (charges div cost))"
proof -
  have "(charges \<ge> (int i + 1) * cost) = (int i + 1 \<le> charges div cost)"
    using assms by (rule int_mult_le_iff_le_div)
  also have "\<dots> = (i < nat (charges div cost))" by auto
  finally show ?thesis .
qed

lemma enumerate_take: "take k (enumerate n xs) = enumerate n (take k xs)"
  by (induction xs arbitrary: n k) (auto simp: take_Cons split: nat.splits)

lemma filter_enumerate_less:
  "filter (\<lambda>(i, a). i < k) (enumerate n xs) = take (k - n) (enumerate n xs)"
proof (induction xs arbitrary: n)
  case Nil
  show ?case by simp
next
  case (Cons x xs)
  show ?case
  proof (cases "n < k")
    case True
    then have "k - n = Suc (k - Suc n)" by simp
    with True Cons show ?thesis by simp
  next
    case False
    with Cons [of "Suc n"] show ?thesis by simp
  qed
qed

lemma kept_charges:
  assumes "0 < cost"
  shows "filter (\<lambda>atk. chargeCost atk \<noteq> CostNull) (markCharges charges cost atks) =
         map (\<lambda>atk. atk\<lparr>chargeCost := CostNum cost\<rparr>) (take (nat (charges div cost)) atks)"
proof -
  let ?n = "nat (charges div cost)"
  let ?f = "\<lambda>(index, atk). if charges \<ge> (int index + 1) * cost
              then atk\<lparr>chargeCost := CostNum cost\<rparr> else atk\<lparr>chargeCost := CostNull\<rparr>"
  have sel: "((\<lambda>atk. chargeCost atk \<noteq> CostNull) \<circ> ?f) = (\<lambda>(i, a). i < ?n)"
    using assms by (auto simp: fun_eq_iff affordable_iff)
  have "filter (\<lambda>atk. chargeCost atk \<noteq> CostNull) (markCharges charges cost atks) =
        map ?f (filter (\<lambda>(i, a). i < ?n) (enumerate 0 atks))"
    unfolding markCharges_def filter_map sel ..
  also have "\<dots> = map ?f (enumerate 0 (take ?n atks))"
    by (simp add: filter_enumerate_less enumerate_take)
  also have "\<dots> = map (\<lambda>p. (snd p)\<lparr>chargeCost := CostNum cost\<rparr>) (enumerate 0 (take ?n atks))"
  proof (rule map_cong [OF refl])
    fix p assume "p \<in> set (enumerate 0 (take ?n atks))"
    then have "fst p < ?n" by (auto simp: in_set_enumerate_eq)
    then have "charges \<ge> (int (fst p) + 1) * cost" using assms by (simp add: affordable_iff)
    then show "?f p = (snd p)\<lparr>chargeCost := CostNum cost\<rparr>" by (cases p) simp
  qed
  also have "\<dots> = map (\<lambda>atk. atk\<lparr>chargeCost := CostNum cost\<rparr>) (map snd (enumerate 0 (take ?n atks)))"
    by (simp only: map_map comp_def)
  also have "map snd (enumerate 0 (take ?n atks)) = take ?n atks"
    by (rule map_snd_enumerate)
  finally show ?thesis .
qed

text \<open>
  Claim C4. For an action that uses charges per attack, with a cost \<open>cost > 0\<close> per attack
  and \<open>charges\<close> charges on the item, the charge filter keeps exactly the attacks at the
  positions \<open>i\<close> with \<open>(i + 1) * cost \<le> charges\<close>. These positions are the first
  \<open>charges div cost\<close> ones, so an attack that cannot be paid goes together with all
  attacks after it. When nothing is kept the planner returns the error for insufficient
  charges. The kept attacks carry the cost.
\<close>

theorem charge_filter_keeps_affordable_prefix:
  assumes "0 < cost" and "uses_perAttack a"
  shows "(\<forall>i<length atks. (i < nat (charges div cost)) = ((int i + 1) * cost \<le> charges)) \<and>
         filterCharges a cost charges atks =
           (if atks = [] \<or> charges < cost then Inl INSUFFICIENT_CHARGES
            else Inr (map (\<lambda>atk. atk\<lparr>chargeCost := CostNum cost\<rparr>)
                       (take (nat (charges div cost)) atks)))"
proof -
  have pos: "(charges div cost \<le> 0) = (charges < cost)"
    using assms(1) pos_imp_zdiv_pos_iff [of cost charges] by linarith
  show ?thesis
    using assms by (auto simp: filterCharges_def kept_charges affordable_iff pos)
qed

text \<open>Two charges, cost one, three attacks: the first two attacks are planned.\<close>

theorem charge_filter_two_of_three:
  "0 < (1::int) \<and> uses_perAttack exAction \<and>
   filterCharges exAction 1 2 [exAttack ''A'' True, exAttack ''B'' True, exAttack ''C'' True] =
     Inr [(exAttack ''A'' True)\<lparr>chargeCost := CostNum 1\<rparr>,
          (exAttack ''B'' True)\<lparr>chargeCost := CostNum 1\<rparr>] \<and>
   planAttacks (exAction\<lparr>ammo_type := []\<rparr>) 1 2 0
       [exAttack ''A'' True, exAttack ''B'' True, exAttack ''C'' True] =
     Inr [(exAttack ''A'' True)\<lparr>chargeCost := CostNum 1\<rparr>,
          (exAttack ''B'' True)\<lparr>chargeCost := CostNum 1\<rparr>]"
  using charge_filter_keeps_affordable_prefix
          [of 1 exAction "[exAttack ''A'' True, exAttack ''B'' True, exAttack ''C'' True]" 2]
        charge_filter_keeps_affordable_prefix
          [of 1 "exAction\<lparr>ammo_type := []\<rparr>"
              "[exAttack ''A'' True, exAttack ''B'' True, exAttack ''C'' True]" 2]
  by (simp add: exAction_def planAttacks_def filterAmmo_def)

text \<open>
  Claim C5. For an action that uses ammunition (a type of ammunition and a cost above
  zero), the ammo filter drops every attack without ammunition and keeps the others in
  their order; the kept attacks are numbered by their position in the list, from 0 without
  a gap. When no attack is kept the planner returns the error for insufficient ammunition.
\<close>

theorem ammo_filter_keeps_loaded_attacks_in_order:
  assumes "ammo_type a \<noteq> []" and "0 < ammo_cost a"
  shows "filterAmmo a atks =
           (if filter hasAmmo atks = [] then Inl INSUFFICIENT_AMMO
            else Inr (filter hasAmmo atks)) \<and>
         subseq (filter hasAmmo atks) atks \<and>
         set (filter hasAmmo atks) = {atk \<in> set atks. hasAmmo atk} \<and>
         map fst (enumerate 0 (filter hasAmmo atks)) = [0..<length (filter hasAmmo atks)]"
  using assms by (simp add: filterAmmo_def)

text \<open>Three attacks, the second without ammunition: the first and the third are planned.\<close>

theorem ammo_filter_first_and_third:
  "ammo_type exAction \<noteq> [] \<and> 0 < ammo_cost exAction \<and>
   filterAmmo exAction [exAttack ''A'' True, exAttack ''B'' False, exAttack ''C'' True] =
     Inr [exAttack ''A'' True, exAttack ''C'' True] \<and>
   planAttacks exAction 0 2 0 [exAttack ''A'' True, exAttack ''B'' False, exAttack ''C'' True] =
     Inr [exAttack ''A'' True, exAttack ''C'' True] \<and>
   enumerate 0 [exAttack ''A'' True, exAttack ''C'' True] =
     [(0, exAttack ''A'' True), (1, exAttack ''C'' True)]"
  using ammo_filter_keeps_loaded_attacks_in_order
          [of exAction "[exAttack ''A'' True, exAttack ''B'' False, exAttack ''C'' True]"]
  by (simp add: exAction_def exAttack_def planAttacks_def filterCharges_def)

section \<open>The step context\<close>

lemma power_attack_values:
  assumes "shared_powerAttack s"
  shows "powerAttackBonus (shared_rollData (stepContext e s)) =
           \<lfloor>of_int (1 + attributes_bab_total (refreshed e) div 4) *
             (case action_powerAttack_damageBonus (refreshed e) of Some b \<Rightarrow> b | None \<Rightarrow> 2) *
             paMult e\<rfloor>"
    and "powerAttackPenalty (shared_rollData (stepContext e s)) =
           map_option (\<lambda>b. - (1 + b div 4)) (bab (refreshed e))"
  using assms by (simp_all add: stepContext_def clearCharge_def applyPowerAttack_def Let_def)

text \<open>
  Claim C1. The bonus is computed from \<^verbatim>\<open>rollData.attributes.bab.total\<close> and the penalty
  from \<^verbatim>\<open>rollData.bab\<close>. With a fresh total of 8, a base of 2 and a multiplier of 1.5 the
  bonus is 9; the penalty follows the other property: it is -2 when that property is 4,
  and not a number when the property is missing. Where both properties are 8 the step
  gives -3 and 9, and with both at 4 it gives -2 and 6.
\<close>

theorem power_attack_penalty_reads_other_property:
  "powerAttackBonus (shared_rollData (stepContext (exEnv 8 (Some 4) Never) exHost)) = 9 \<and>
   powerAttackPenalty (shared_rollData (stepContext (exEnv 8 (Some 4) Never) exHost)) = Some (- 2) \<and>
   powerAttackPenalty (shared_rollData (stepContext (exEnv 8 None Never) exHost)) = None \<and>
   powerAttackBonus (shared_rollData (stepContext (exEnv 8 (Some 8) Never) exHost)) = 9 \<and>
   powerAttackPenalty (shared_rollData (stepContext (exEnv 8 (Some 8) Never) exHost)) = Some (- 3) \<and>
   powerAttackBonus (shared_rollData (stepContext (exEnv 4 (Some 4) Never) exHost)) = 6 \<and>
   powerAttackPenalty (shared_rollData (stepContext (exEnv 4 (Some 4) Never) exHost)) = Some (- 2)"
  by (simp add: stepContext_def clearCharge_def applyPowerAttack_def exEnv_def exHost_def
        exRollData_def Let_def)

section \<open>One call of the tracker\<close>

lemmas run_defs = runHandlers_def runUI_def dispatch_def available_def handler_def
  resolveCurrentAttack_def stepContext_def clearCharge_def chargeTag_def applyPowerAttack_def
  isolateAttack_def missingAmmo_def commitAndPost_def ammoStep_def subtractSingleAttackAmmo_def subtractCharges_def
  subtractSelfUse_def postCard_def extraParts_def markResolved_def updateDialog_def
  buildButtons_def skipCurrentAttack_def closeDialog_def resolvePromise_def startTracker_def
  balance_def exHost_def exEnv_def exAttack_def exAction_def exRollData_def Let_def

lemma stateOf_simps [simp]: "stateOf (Inl s) = s" "stateOf (Inr s) = s"
  by (simp_all add: stateOf_def)

lemma commitAndPost_frame:
  assumes r: "\<And>s. R s s" and tr: "\<And>s t u. R s t \<Longrightarrow> R t u \<Longrightarrow> R s u"
    and a: "\<And>f c s. R s (stateOf (subtractSingleAttackAmmo f i atk c s))"
    and c: "\<And>f s. R s (stateOf (subtractCharges f i atk s))"
    and u: "\<And>f s. R s (stateOf (subtractSelfUse f i s))"
    and p: "\<And>s. R s (stateOf (postCard e i atk s))"
  shows "R s (stateOf (commitAndPost e i atk s))"
proof (cases "hookResult e \<and> \<not> scriptReject e")
  case False
  then show ?thesis by (auto simp: commitAndPost_def r)
next
  case True
  let ?r1 = "ammoStep e i atk s"
  have a1: "R s (stateOf ?r1)" by (simp add: ammoStep_def a r)
  show ?thesis
  proof (cases ?r1)
    case (Inl s')
    with True a1 show ?thesis by (simp add: commitAndPost_def)
  next
    case r1: (Inr s1)
    with a1 have c1: "R s s1" by simp
    show ?thesis
    proof (cases "subtractCharges (throwAt e = AtChargeCommit) i atk s1")
      case (Inl s')
      with c [of s1 "throwAt e = AtChargeCommit"] c1 have "R s s'" by (auto intro: tr)
      with True r1 Inl show ?thesis by (simp add: commitAndPost_def)
    next
      case r2: (Inr s2)
      with c [of s1 "throwAt e = AtChargeCommit"] c1 have c2: "R s s2" by (auto intro: tr)
      show ?thesis
      proof (cases "subtractSelfUse (throwAt e = AtSelfCharge) i s2")
        case (Inl s')
        with u [of s2 "throwAt e = AtSelfCharge"] c2 have "R s s'" by (auto intro: tr)
        with True r1 r2 Inl show ?thesis by (simp add: commitAndPost_def)
      next
        case r3: (Inr s3)
        with u [of s2 "throwAt e = AtSelfCharge"] c2 have c3: "R s s3" by (auto intro: tr)
        from c3 p [of s3] have "R s (stateOf (postCard e i atk s3))" by (rule tr)
        with True r1 r2 r3 show ?thesis by (simp add: commitAndPost_def)
      qed
    qed
  qed
qed

lemma resolve_Inl_cases:
  assumes "resolveCurrentAttack e s = Inl s'"
  shows "s' = s \<or> s' = stepContext e s \<or> s' = isolateAttack (currentIndex s) (stepContext e s) \<or>
         (currentIndex s < length (allAttacks s) \<and>
          commitAndPost e (currentIndex s) (allAttacks s ! currentIndex s)
            (isolateAttack (currentIndex s) (stepContext e s)) = Inl s')"
  using assms by (auto simp: resolveCurrentAttack_def Let_def split: if_splits sum.splits)

lemma resolve_Inr_cases:
  assumes "resolveCurrentAttack e s = Inr s'"
  shows "currentIndex s < length (allAttacks s) \<and>
         (\<exists>s3. commitAndPost e (currentIndex s) (allAttacks s ! currentIndex s)
                 (isolateAttack (currentIndex s) (stepContext e s)) = Inr s3 \<and>
               s' = markResolved (currentIndex s) (shared_attacks (stepContext e s)) s3)"
  using assms by (auto simp: resolveCurrentAttack_def Let_def split: if_splits sum.splits)

lemma resolve_frame:
  assumes r: "\<And>s. R s s" and tr: "\<And>s t u. R s t \<Longrightarrow> R t u \<Longrightarrow> R s u"
    and sc: "R s (stepContext e s)"
    and iso: "\<And>s. R s (isolateAttack (currentIndex s) s)"
    and cp: "\<And>i atk s. R s (stateOf (commitAndPost e i atk s))"
    and ci: "currentIndex (stepContext e s) = currentIndex s"
  shows "(resolveCurrentAttack e s = Inl s' \<longrightarrow> R s s') \<and>
         (resolveCurrentAttack e s = Inr s' \<longrightarrow>
            (\<exists>s3. R s s3 \<and> s' = markResolved (currentIndex s) (shared_attacks (stepContext e s)) s3))"
proof -
  let ?s2 = "isolateAttack (currentIndex s) (stepContext e s)"
  have r2: "R s ?s2" using sc iso [of "stepContext e s"] ci by (auto intro: tr)
  have r3: "R s (stateOf (commitAndPost e (currentIndex s) (allAttacks s ! currentIndex s) ?s2))"
    using r2 cp by (rule tr)
  show ?thesis
  proof (intro conjI impI)
    assume "resolveCurrentAttack e s = Inl s'"
    from resolve_Inl_cases [OF this] r sc r2 r3 show "R s s'" by auto
  next
    assume "resolveCurrentAttack e s = Inr s'"
    from resolve_Inr_cases [OF this] r3
    show "\<exists>s3. R s s3 \<and> s' = markResolved (currentIndex s) (shared_attacks (stepContext e s)) s3"
      by auto
  qed
qed

lemma sameControl_refl: "sameControl s s"
  by (simp add: sameControl_def)

lemma sameControl_trans: "sameControl s t \<Longrightarrow> sameControl t u \<Longrightarrow> sameControl s u"
  by (simp add: sameControl_def)

lemma stepContext_control: "sameControl s (stepContext e s)"
  by (simp add: sameControl_def stepContext_def clearCharge_def Let_def)

lemma isolate_control: "sameControl s (isolateAttack i s)"
  by (simp add: sameControl_def isolateAttack_def)

lemma subtractAmmo_control: "sameControl s (stateOf (subtractSingleAttackAmmo f i atk c s))"
  by (simp add: sameControl_def stateOf_def subtractSingleAttackAmmo_def Let_def
           split: option.splits)

lemma subtractCharges_control: "sameControl s (stateOf (subtractCharges f i atk s))"
  by (simp add: sameControl_def stateOf_def subtractCharges_def Let_def
           split: chargeCostVal.splits)

lemma subtractSelfUse_control: "sameControl s (stateOf (subtractSelfUse f i s))"
  by (simp add: sameControl_def stateOf_def subtractSelfUse_def)

lemma postCard_control: "sameControl s (stateOf (postCard e i atk s))"
  by (simp add: sameControl_def stateOf_def postCard_def Let_def)

lemma commitAndPost_control: "sameControl s (stateOf (commitAndPost e i atk s))"
  by (rule commitAndPost_frame [where R = sameControl])
     (auto intro: sameControl_refl sameControl_trans subtractAmmo_control
        subtractCharges_control subtractSelfUse_control postCard_control)

lemma resolve_control:
  "(resolveCurrentAttack e s = Inl s' \<longrightarrow> sameControl s s') \<and>
   (resolveCurrentAttack e s = Inr s' \<longrightarrow>
      (\<exists>s3. sameControl s s3 \<and>
            s' = markResolved (currentIndex s) (shared_attacks (stepContext e s)) s3))"
proof (rule resolve_frame [where R = sameControl])
  show "currentIndex (stepContext e s) = currentIndex s"
    using stepContext_control [of s e] by (simp add: sameControl_def)
qed (auto intro: sameControl_refl sameControl_trans stepContext_control isolate_control
       commitAndPost_control)


lemma markResolved_index:
  "currentIndex (markResolved i orig s) = Suc i \<and>
   resolvedIndices (markResolved i orig s) = insert i (resolvedIndices s) \<and>
   skippedIndices (markResolved i orig s) = skippedIndices s \<and>
   allAttacks (markResolved i orig s) = allAttacks s"
  by (simp add: markResolved_def updateDialog_def Let_def)

lemma skip_index:
  "currentIndex (skipCurrentAttack s) = Suc (currentIndex s) \<and>
   resolvedIndices (skipCurrentAttack s) = resolvedIndices s \<and>
   skippedIndices (skipCurrentAttack s) = insert (currentIndex s) (skippedIndices s) \<and>
   allAttacks (skipCurrentAttack s) = allAttacks s"
  by (simp add: skipCurrentAttack_def updateDialog_def Let_def)

lemma advance_index:
  "(currentIndex (handler (Advance e) s) = currentIndex s \<and>
    resolvedIndices (handler (Advance e) s) = resolvedIndices s \<and>
    skippedIndices (handler (Advance e) s) = skippedIndices s) \<or>
   (currentIndex (handler (Advance e) s) = Suc (currentIndex s) \<and>
    resolvedIndices (handler (Advance e) s) = insert (currentIndex s) (resolvedIndices s) \<and>
    skippedIndices (handler (Advance e) s) = skippedIndices s)"
proof (cases "resolveCurrentAttack e s")
  case (Inl s')
  with resolve_control [of e s s'] have "sameControl s s'" by simp
  with Inl show ?thesis by (simp add: handler_def sameControl_def)
next
  case (Inr s')
  with resolve_control [of e s s'] obtain s3 where
    "sameControl s s3" "s' = markResolved (currentIndex s) (shared_attacks (stepContext e s)) s3"
    by auto
  with Inr show ?thesis by (simp add: handler_def sameControl_def markResolved_index)
qed

lemma resolvePromise_index [simp]:
  "currentIndex (resolvePromise v s) = currentIndex s"
  "resolvedIndices (resolvePromise v s) = resolvedIndices s"
  "skippedIndices (resolvePromise v s) = skippedIndices s"
  "allAttacks (resolvePromise v s) = allAttacks s"
  by (simp_all add: resolvePromise_def split: option.splits)

lemma closeDialog_index [simp]:
  "currentIndex (closeDialog s) = currentIndex s"
  "resolvedIndices (closeDialog s) = resolvedIndices s"
  "skippedIndices (closeDialog s) = skippedIndices s"
  "allAttacks (closeDialog s) = allAttacks s"
  by (simp_all add: closeDialog_def Let_def)

lemma other_index:
  assumes "c = Cancel \<or> c = Done \<or> c = CloseWindow \<or> c = Timer"
  shows "currentIndex (handler c s) = currentIndex s \<and>
         resolvedIndices (handler c s) = resolvedIndices s \<and>
         skippedIndices (handler c s) = skippedIndices s"
  using assms by (auto simp: handler_def)

lemma handler_index_cases:
  "(currentIndex (handler c s) = currentIndex s \<and>
    resolvedIndices (handler c s) = resolvedIndices s \<and>
    skippedIndices (handler c s) = skippedIndices s) \<or>
   (currentIndex (handler c s) = Suc (currentIndex s) \<and>
    resolvedIndices (handler c s) = insert (currentIndex s) (resolvedIndices s) \<and>
    skippedIndices (handler c s) = skippedIndices s) \<or>
   (currentIndex (handler c s) = Suc (currentIndex s) \<and>
    resolvedIndices (handler c s) = resolvedIndices s \<and>
    skippedIndices (handler c s) = insert (currentIndex s) (skippedIndices s))"
proof (cases c)
  case (Advance e)
  with advance_index [of e s] show ?thesis by auto
next
  case Skip
  with skip_index [of s] show ?thesis by (simp add: handler_def)
qed (use other_index [of c s] in auto)

lemma handler_indexInv:
  assumes "indexInv s"
  shows "indexInv (handler c s)"
proof -
  from assms have disj: "resolvedIndices s \<inter> skippedIndices s = {}"
    and un: "resolvedIndices s \<union> skippedIndices s = {0..<currentIndex s}"
    by (simp_all add: indexInv_def)
  from un have "currentIndex s \<notin> resolvedIndices s \<union> skippedIndices s" by simp
  then have fresh: "currentIndex s \<notin> resolvedIndices s" "currentIndex s \<notin> skippedIndices s"
    by simp_all
  have suc: "{0..<Suc (currentIndex s)} = insert (currentIndex s) (resolvedIndices s \<union> skippedIndices s)"
    unfolding un by auto
  from handler_index_cases [of c s] show ?thesis
  proof (elim disjE conjE)
    assume "currentIndex (handler c s) = currentIndex s"
      "resolvedIndices (handler c s) = resolvedIndices s"
      "skippedIndices (handler c s) = skippedIndices s"
    with disj un show ?thesis by (simp add: indexInv_def)
  next
    assume "currentIndex (handler c s) = Suc (currentIndex s)"
      "resolvedIndices (handler c s) = insert (currentIndex s) (resolvedIndices s)"
      "skippedIndices (handler c s) = skippedIndices s"
    with disj fresh suc show ?thesis by (simp add: indexInv_def)
  next
    assume "currentIndex (handler c s) = Suc (currentIndex s)"
      "resolvedIndices (handler c s) = resolvedIndices s"
      "skippedIndices (handler c s) = insert (currentIndex s) (skippedIndices s)"
    with disj fresh suc show ?thesis by (simp add: indexInv_def)
  qed
qed

lemma handler_mono: "currentIndex s \<le> currentIndex (handler c s)"
  using handler_index_cases [of c s] by auto

lemma runHandlers_snoc: "runHandlers (cs @ [c]) s = handler c (runHandlers cs s)"
  by (simp add: runHandlers_def)

lemma start_indexInv: "indexInv (startTracker host atks)"
  by (simp add: indexInv_def startTracker_def)

lemma ammoStep_returns:
  assumes "throwAt e \<noteq> AtAmmoCommit"
  shows "\<not> isl (ammoStep e i atk s)"
  using assms
  by (simp add: ammoStep_def subtractSingleAttackAmmo_def Let_def split: option.splits)

lemma subtractCharges_returns: "\<not> isl (subtractCharges False i atk s)"
  by (simp add: subtractCharges_def Let_def split: chargeCostVal.splits)

lemma subtractSelfUse_returns: "\<not> isl (subtractSelfUse False i s)"
  by (simp add: subtractSelfUse_def)

lemma postCard_returns:
  assumes "throwAt e \<noteq> AtPost" and "throwAt e \<noteq> AtPostUse"
  shows "\<not> isl (postCard e i atk s)"
  using assms by (simp add: postCard_def Let_def)

lemma commitAndPost_Inl_iff:
  "commitAndPost e i atk s = Inl s' \<longleftrightarrow>
     hookResult e \<and> \<not> scriptReject e \<and>
     (ammoStep e i atk s = Inl s' \<or>
      (\<exists>s1. ammoStep e i atk s = Inr s1 \<and>
         (subtractCharges (throwAt e = AtChargeCommit) i atk s1 = Inl s' \<or>
          (\<exists>s2. subtractCharges (throwAt e = AtChargeCommit) i atk s1 = Inr s2 \<and>
             (subtractSelfUse (throwAt e = AtSelfCharge) i s2 = Inl s' \<or>
              (\<exists>s3. subtractSelfUse (throwAt e = AtSelfCharge) i s2 = Inr s3 \<and>
                    postCard e i atk s3 = Inl s'))))))"
  by (auto simp: commitAndPost_def split: sum.splits)

lemma commitAndPost_Inr_iff:
  "commitAndPost e i atk s = Inr s' \<longleftrightarrow>
     (if hookResult e \<and> \<not> scriptReject e then
        (\<exists>s1 s2 s3. ammoStep e i atk s = Inr s1 \<and>
           subtractCharges (throwAt e = AtChargeCommit) i atk s1 = Inr s2 \<and>
           subtractSelfUse (throwAt e = AtSelfCharge) i s2 = Inr s3 \<and>
           postCard e i atk s3 = Inr s')
      else s' = s)"
  by (auto simp: commitAndPost_def split: sum.splits)

lemma commitAndPost_AtPost:
  assumes "throwAt e = AtPost" and "hookResult e" and "\<not> scriptReject e"
  shows "isl (commitAndPost e i atk s)"
proof -
  from assms(1) obtain s1 where s1: "ammoStep e i atk s = Inr s1"
    using ammoStep_returns [of e i atk s] by (cases "ammoStep e i atk s") auto
  from assms(1) obtain s2 where s2: "subtractCharges (throwAt e = AtChargeCommit) i atk s1 = Inr s2"
    using subtractCharges_returns [of i atk s1]
    by (cases "subtractCharges False i atk s1") auto
  from assms(1) obtain s3 where s3: "subtractSelfUse (throwAt e = AtSelfCharge) i s2 = Inr s3"
    using subtractSelfUse_returns [of i s2] by (cases "subtractSelfUse False i s2") auto
  from assms(1) have "postCard e i atk s3 = Inl s3" by (simp add: postCard_def)
  with s1 s2 s3 assms have "commitAndPost e i atk s = Inl s3"
    by (simp add: commitAndPost_Inl_iff)
  then show ?thesis by simp
qed

lemma roll_or_post_failure_throws:
  assumes "currentIndex s < length (allAttacks s)"
    and "throwAt e = AtRoll \<or> (throwAt e = AtPost \<and> hookResult e \<and> \<not> scriptReject e)"
  shows "isl (resolveCurrentAttack e s)"
proof -
  from assms(2) show ?thesis
  proof
    assume "throwAt e = AtRoll"
    with assms(1) show ?thesis by (simp add: resolveCurrentAttack_def Let_def)
  next
    assume p: "throwAt e = AtPost \<and> hookResult e \<and> \<not> scriptReject e"
    then have "isl (commitAndPost e (currentIndex s) (allAttacks s ! currentIndex s)
                 (isolateAttack (currentIndex s) (stepContext e s)))"
      by (simp add: commitAndPost_AtPost)
    with p assms(1) show ?thesis
      by (auto simp: resolveCurrentAttack_def Let_def split: sum.splits)
  qed
qed

text \<open>
  Claim C6. A call of \<^verbatim>\<open>_resolveCurrentAttack\<close> throws when the roll fails or the card
  cannot be posted. When the call throws, the listener of the Next button catches it: the
  current index and the resolved and skipped sets stay as they were, the tracker is not
  completed by it and stays in its phase, the buttons on the screen stay, and the user is
  notified of the error. The same step is the one the next click resolves.
\<close>

theorem advance_failure_keeps_step:
  "(currentIndex s < length (allAttacks s) \<and>
    (throwAt e = AtRoll \<or> (throwAt e = AtPost \<and> hookResult e \<and> \<not> scriptReject e))
      \<longrightarrow> isl (resolveCurrentAttack e s)) \<and>
   (isl (resolveCurrentAttack e s) \<longrightarrow>
      currentIndex (handler (Advance e) s) = currentIndex s \<and>
      resolvedIndices (handler (Advance e) s) = resolvedIndices s \<and>
      skippedIndices (handler (Advance e) s) = skippedIndices s \<and>
      completed (handler (Advance e) s) = completed s \<and>
      phaseOf (handler (Advance e) s) = phaseOf s \<and>
      rendered (handler (Advance e) s) = rendered s \<and>
      notifications (handler (Advance e) s) =
        notifications s @ [''Error resolving attack. Check console.''])"
proof (intro conjI impI)
  assume "currentIndex s < length (allAttacks s) \<and>
    (throwAt e = AtRoll \<or> (throwAt e = AtPost \<and> hookResult e \<and> \<not> scriptReject e))"
  then show "isl (resolveCurrentAttack e s)" by (simp add: roll_or_post_failure_throws)
next
  assume "isl (resolveCurrentAttack e s)"
  then obtain s' where r: "resolveCurrentAttack e s = Inl s'"
    by (cases "resolveCurrentAttack e s") auto
  with resolve_control [of e s s'] have c: "sameControl s s'" by simp
  from r c show "currentIndex (handler (Advance e) s) = currentIndex s"
    by (simp add: handler_def sameControl_def)
  from r c show "resolvedIndices (handler (Advance e) s) = resolvedIndices s"
    by (simp add: handler_def sameControl_def)
  from r c show "skippedIndices (handler (Advance e) s) = skippedIndices s"
    by (simp add: handler_def sameControl_def)
  from r c show "completed (handler (Advance e) s) = completed s"
    by (simp add: handler_def sameControl_def)
  from r c show "phaseOf (handler (Advance e) s) = phaseOf s"
    by (simp add: handler_def sameControl_def phaseOf_def)
  from r c show "rendered (handler (Advance e) s) = rendered s"
    by (simp add: handler_def sameControl_def)
  from r c show "notifications (handler (Advance e) s) =
      notifications s @ [''Error resolving attack. Check console.'']"
    by (simp add: handler_def sameControl_def)
qed

text \<open>
  The card of the first of two attacks cannot be posted: the tracker stays at index 0 with
  nothing resolved, the Next button stays, and the error is shown.
\<close>

theorem advance_failure_at_post:
  "isl (resolveCurrentAttack (exEnv 8 (Some 8) AtPost)
         (startTracker exHost [exAttack ''A'' True, exAttack ''B'' True])) \<and>
   currentIndex (handler (Advance (exEnv 8 (Some 8) AtPost))
         (startTracker exHost [exAttack ''A'' True, exAttack ''B'' True])) = 0 \<and>
   resolvedIndices (handler (Advance (exEnv 8 (Some 8) AtPost))
         (startTracker exHost [exAttack ''A'' True, exAttack ''B'' True])) = {} \<and>
   phaseOf (handler (Advance (exEnv 8 (Some 8) AtPost))
         (startTracker exHost [exAttack ''A'' True, exAttack ''B'' True])) = Running \<and>
   rendered (handler (Advance (exEnv 8 (Some 8) AtPost))
         (startTracker exHost [exAttack ''A'' True, exAttack ''B'' True])) =
     [NextBtn, SkipBtn, CancelBtn] \<and>
   notifications (handler (Advance (exEnv 8 (Some 8) AtPost))
         (startTracker exHost [exAttack ''A'' True, exAttack ''B'' True])) =
     [''Error resolving attack. Check console.'']"
  using advance_failure_keeps_step
          [of "startTracker exHost [exAttack ''A'' True, exAttack ''B'' True]"
              "exEnv 8 (Some 8) AtPost"]
  by (simp add: startTracker_def exEnv_def exHost_def phaseOf_def)

section \<open>The charge selection\<close>

lemma sameCharge_refl: "sameChargeSelection s s"
  by (simp add: sameChargeSelection_def)

lemma sameCharge_trans:
  "sameChargeSelection s t \<Longrightarrow> sameChargeSelection t u \<Longrightarrow> sameChargeSelection s u"
  by (simp add: sameChargeSelection_def)

lemma isolate_charge: "sameChargeSelection s (isolateAttack i s)"
  by (simp add: sameChargeSelection_def isolateAttack_def)

lemma subtractAmmo_charge:
  "sameChargeSelection s (stateOf (subtractSingleAttackAmmo f i atk c s))"
  by (simp add: sameChargeSelection_def stateOf_def subtractSingleAttackAmmo_def Let_def
           split: option.splits)

lemma subtractCharges_charge: "sameChargeSelection s (stateOf (subtractCharges f i atk s))"
  by (simp add: sameChargeSelection_def stateOf_def subtractCharges_def Let_def
           split: chargeCostVal.splits)

lemma subtractSelfUse_charge: "sameChargeSelection s (stateOf (subtractSelfUse f i s))"
  by (simp add: sameChargeSelection_def stateOf_def subtractSelfUse_def)

lemma postCard_charge: "sameChargeSelection s (stateOf (postCard e i atk s))"
  by (simp add: sameChargeSelection_def stateOf_def postCard_def Let_def)

lemma commitAndPost_charge: "sameChargeSelection s (stateOf (commitAndPost e i atk s))"
  by (rule commitAndPost_frame [where R = sameChargeSelection])
     (auto intro: sameCharge_refl sameCharge_trans subtractAmmo_charge
        subtractCharges_charge subtractSelfUse_charge postCard_charge)

lemma markResolved_charge: "sameChargeSelection s (markResolved i orig s)"
  by (simp add: sameChargeSelection_def markResolved_def updateDialog_def Let_def)

lemma stepContext_charge:
  "sameChargeSelection (clearCharge (currentIndex s) s) (stepContext e s)"
  by (simp add: sameChargeSelection_def stepContext_def clearCharge_def chargeTag_def Let_def)

lemma resolve_charge:
  "sameChargeSelection s (stateOf (resolveCurrentAttack e s)) \<or>
   sameChargeSelection (clearCharge (currentIndex s) s) (stateOf (resolveCurrentAttack e s))"
proof -
  let ?c = "clearCharge (currentIndex s) s"
  let ?s2 = "isolateAttack (currentIndex s) (stepContext e s)"
  have s2: "sameChargeSelection ?c ?s2"
    using stepContext_charge [of s e] isolate_charge [of "stepContext e s" "currentIndex s"]
    by (rule sameCharge_trans)
  have cp: "sameChargeSelection ?c
      (stateOf (commitAndPost e (currentIndex s) (allAttacks s ! currentIndex s) ?s2))"
    using s2 commitAndPost_charge by (rule sameCharge_trans)
  show ?thesis
  proof (cases "resolveCurrentAttack e s")
    case (Inl s')
    from resolve_Inl_cases [OF Inl] sameCharge_refl [of s] stepContext_charge [of s e] s2 cp
    have "sameChargeSelection s s' \<or> sameChargeSelection ?c s'" by auto
    with Inl show ?thesis by simp
  next
    case (Inr s')
    from resolve_Inr_cases [OF Inr] obtain s3 where
      c3: "commitAndPost e (currentIndex s) (allAttacks s ! currentIndex s) ?s2 = Inr s3"
      and s': "s' = markResolved (currentIndex s) (shared_attacks (stepContext e s)) s3"
      by auto
    from cp c3 have "sameChargeSelection ?c s3" by simp
    then have "sameChargeSelection ?c s'"
      unfolding s' using markResolved_charge by (rule sameCharge_trans)
    with Inr show ?thesis by simp
  qed
qed

lemma handler_charge:
  "sameChargeSelection s (handler c s) \<or>
   sameChargeSelection (clearCharge (currentIndex s) s) (handler c s)"
proof (cases c)
  case (Advance e)
  have "attackBonus (handler c s) = attackBonus (stateOf (resolveCurrentAttack e s)) \<and>
        formData_charge (handler c s) = formData_charge (stateOf (resolveCurrentAttack e s)) \<and>
        shared_charge (handler c s) = shared_charge (stateOf (resolveCurrentAttack e s))"
    using Advance by (simp add: handler_def stateOf_def split: sum.splits)
  with resolve_charge [of s e] show ?thesis by (simp add: sameChargeSelection_def)
next
  case Skip
  then show ?thesis
    by (simp add: handler_def sameChargeSelection_def skipCurrentAttack_def updateDialog_def Let_def)
next
  case Cancel
  then show ?thesis
    by (simp add: handler_def sameChargeSelection_def closeDialog_def resolvePromise_def Let_def
             split: option.splits)
next
  case Done
  then show ?thesis
    by (simp add: handler_def sameChargeSelection_def closeDialog_def resolvePromise_def Let_def
             split: option.splits)
next
  case CloseWindow
  then show ?thesis
    by (simp add: handler_def sameChargeSelection_def closeDialog_def resolvePromise_def Let_def
             split: option.splits)
next
  case Timer
  then show ?thesis
    by (simp add: handler_def sameChargeSelection_def closeDialog_def resolvePromise_def Let_def
             split: option.splits)
qed

lemma handler_chargeLabel: "chargeLabel (handler c s) = chargeLabel s"
proof (cases c)
  case (Advance e)
  show ?thesis
  proof (cases "resolveCurrentAttack e s")
    case (Inl s')
    with resolve_control [of e s s'] Advance show ?thesis
      by (simp add: handler_def sameControl_def)
  next
    case (Inr s')
    with resolve_control [of e s s'] Advance show ?thesis
      by (auto simp: handler_def sameControl_def markResolved_def updateDialog_def Let_def)
  qed
qed (simp_all add: handler_def skipCurrentAttack_def updateDialog_def closeDialog_def
       resolvePromise_def Let_def split: option.splits)

lemma handler_chargeInv:
  assumes "chargeInv host s"
  shows "chargeInv host (handler c s)"
proof -
  have lab: "chargeLabel (handler c s) = chargeLabel host"
    using assms by (simp add: handler_chargeLabel chargeInv_def)
  have mono: "currentIndex s \<le> currentIndex (handler c s)" by (rule handler_mono)
  have tag: "chargeTag s = chargeTag host" using assms by (simp add: chargeTag_def chargeInv_def)
  from handler_charge [of s c] show ?thesis
  proof
    assume "sameChargeSelection s (handler c s)"
    with assms lab mono show ?thesis
      by (auto simp: chargeInv_def sameChargeSelection_def)
  next
    assume c: "sameChargeSelection (clearCharge (currentIndex s) s) (handler c s)"
    show ?thesis
    proof (cases "0 < currentIndex s \<and> formData_charge s")
      case True
      with assms have "attackBonus s = attackBonus host" by (auto simp: chargeInv_def)
      with True c tag lab mono show ?thesis
        by (auto simp: chargeInv_def sameChargeSelection_def clearCharge_def withoutCharge_def)
    next
      case False
      then have "clearCharge (currentIndex s) s = s" by (auto simp: clearCharge_def)
      with c assms lab mono show ?thesis
        by (auto simp: chargeInv_def sameChargeSelection_def)
    qed
  qed
qed

lemma runHandlers_chargeInv:
  assumes "chargeInv host s"
  shows "chargeInv host (runHandlers cs s)"
  using assms
  by (induction cs rule: rev_induct) (simp_all add: runHandlers_snoc handler_chargeInv runHandlers_def)

lemma start_chargeInv:
  assumes "formData_charge host"
  shows "chargeInv host (startTracker host atks)"
  using assms by (simp add: chargeInv_def startTracker_def)

text \<open>
  Claim C2. A charge was selected in the dialog. In every state a run of the tracker
  reaches, the context derived for the step at index 0 has the selection and the parts of
  \<^verbatim>\<open>shared.attackBonus\<close> as the dialog left them, the charge bonus among them. The
  context derived for a step at a later index has both selection flags cleared, and its
  parts are those of the dialog without every part that contains the charge tag; no part
  with the tag is left.
\<close>

theorem charge_bonus_only_on_first_step:
  assumes "formData_charge host"
  shows "(currentIndex (runHandlers cs (startTracker host atks)) = 0 \<longrightarrow>
            formData_charge (stepContext e (runHandlers cs (startTracker host atks))) \<and>
            shared_charge (stepContext e (runHandlers cs (startTracker host atks))) =
              shared_charge host \<and>
            attackBonus (stepContext e (runHandlers cs (startTracker host atks))) =
              attackBonus host) \<and>
         (0 < currentIndex (runHandlers cs (startTracker host atks)) \<longrightarrow>
            \<not> formData_charge (stepContext e (runHandlers cs (startTracker host atks))) \<and>
            \<not> shared_charge (stepContext e (runHandlers cs (startTracker host atks))) \<and>
            attackBonus (stepContext e (runHandlers cs (startTracker host atks))) =
              filter (\<lambda>part. \<not> str_includes part (''['' @ chargeLabel host @ '']''))
                (attackBonus host) \<and>
            list_all (\<lambda>part. \<not> str_includes part (''['' @ chargeLabel host @ '']''))
              (attackBonus (stepContext e (runHandlers cs (startTracker host atks)))))"
proof -
  let ?s = "runHandlers cs (startTracker host atks)"
  have inv: "chargeInv host ?s"
    using assms by (simp add: runHandlers_chargeInv start_chargeInv)
  have sc: "sameChargeSelection (clearCharge (currentIndex ?s) ?s) (stepContext e ?s)"
    by (rule stepContext_charge)
  have tag: "chargeTag ?s = ''['' @ chargeLabel host @ '']''"
    using inv by (simp add: chargeTag_def chargeInv_def)
  show ?thesis
  proof (intro conjI impI)
    assume z: "currentIndex ?s = 0"
    then have "clearCharge (currentIndex ?s) ?s = ?s" by (simp add: clearCharge_def)
    with sc have same: "sameChargeSelection ?s (stepContext e ?s)" by simp
    from inv z same show "formData_charge (stepContext e ?s)"
      by (auto simp: chargeInv_def sameChargeSelection_def)
    from inv z same show "shared_charge (stepContext e ?s) = shared_charge host"
      by (auto simp: chargeInv_def sameChargeSelection_def)
    from inv z same show "attackBonus (stepContext e ?s) = attackBonus host"
      by (auto simp: chargeInv_def sameChargeSelection_def)
  next
    assume p: "0 < currentIndex ?s"
    have all: "\<not> formData_charge (stepContext e ?s) \<and> \<not> shared_charge (stepContext e ?s) \<and>
          attackBonus (stepContext e ?s) =
            filter (\<lambda>part. \<not> str_includes part (''['' @ chargeLabel host @ '']'')) (attackBonus host)"
    proof (cases "formData_charge ?s")
      case True
      with inv have "attackBonus ?s = attackBonus host" by (auto simp: chargeInv_def)
      with True p sc tag show ?thesis
        by (simp add: sameChargeSelection_def clearCharge_def)
    next
      case False
      then have "clearCharge (currentIndex ?s) ?s = ?s" by (simp add: clearCharge_def)
      with sc have "sameChargeSelection ?s (stepContext e ?s)" by simp
      with False inv show ?thesis
        by (auto simp: chargeInv_def sameChargeSelection_def withoutCharge_def chargeTag_def)
    qed
    from all show "\<not> formData_charge (stepContext e ?s)" by simp
    from all show "\<not> shared_charge (stepContext e ?s)" by simp
    from all show "attackBonus (stepContext e ?s) =
            filter (\<lambda>part. \<not> str_includes part (''['' @ chargeLabel host @ '']'')) (attackBonus host)"
      by simp
    from all show "list_all (\<lambda>part. \<not> str_includes part (''['' @ chargeLabel host @ '']''))
              (attackBonus (stepContext e ?s))"
      by (simp add: list_all_iff)
  qed
qed

text \<open>
  The charge bonus is rolled with the first of two attacks and not with the second.
\<close>

theorem charge_bonus_dropped_on_second_step:
  "formData_charge exHost \<and>
   currentIndex (startTracker exHost [exAttack ''A'' True, exAttack ''B'' True]) = 0 \<and>
   attackBonus (stepContext (exEnv 8 (Some 8) Never)
       (startTracker exHost [exAttack ''A'' True, exAttack ''B'' True])) =
     [''2[Charge]'', ''1[Bless]''] \<and>
   0 < currentIndex (runHandlers [Advance (exEnv 8 (Some 8) Never)]
       (startTracker exHost [exAttack ''A'' True, exAttack ''B'' True])) \<and>
   attackBonus (stepContext (exEnv 8 (Some 8) Never)
       (runHandlers [Advance (exEnv 8 (Some 8) Never)]
          (startTracker exHost [exAttack ''A'' True, exAttack ''B'' True]))) = [''1[Bless]''] \<and>
   \<not> formData_charge (stepContext (exEnv 8 (Some 8) Never)
       (runHandlers [Advance (exEnv 8 (Some 8) Never)]
          (startTracker exHost [exAttack ''A'' True, exAttack ''B'' True])))"
  using charge_bonus_only_on_first_step
          [of exHost "[Advance (exEnv 8 (Some 8) Never)]"
              "[exAttack ''A'' True, exAttack ''B'' True]" "exEnv 8 (Some 8) Never"]
        charge_bonus_only_on_first_step
          [of exHost "[]" "[exAttack ''A'' True, exAttack ''B'' True]" "exEnv 8 (Some 8) Never"]
  by (simp add: run_defs)

section \<open>The writes of one step\<close>

lemma ammoStep_result:
  assumes "ammoStep e i atk s = Inr s1"
  shows "sameControl s s1 \<and> items s1 = itemsAfter s atk \<and>
         commits s1 = commits s @ (if ammoWritten s atk then [(i, Ammo)] else []) \<and>
         cards s1 = cards s \<and> item_charges s1 = item_charges s \<and> selfUses s1 = selfUses s"
proof (cases "ammo_cost (act s) \<noteq> 0 \<and> hasAmmo atk")
  case False
  with assms have "s1 = s" by (auto simp: ammoStep_def)
  with False show ?thesis
    by (auto simp: sameControl_def itemsAfter_def ammoWritten_def split: option.splits)
next
  case True
  with assms have
    r: "subtractSingleAttackAmmo (throwAt e = AtAmmoCommit) i atk (ammo_cost (act s)) s = Inr s1"
    by (simp add: ammoStep_def)
  show ?thesis
  proof (cases "ammoWritten s atk")
    case w: True
    then obtain aid it where a: "ammo atk = Some aid" "items s aid = Some it" "\<not> abundant it"
      "hasAttack (act s)" "ammo_type (act s) \<noteq> []"
      by (auto simp: ammoWritten_def split: option.splits)
    with r have "s1 = s\<lparr>items := (items s)(aid \<mapsto> it\<lparr>quantity := Some (balance it - ammo_cost (act s))\<rparr>),
                        commits := commits s @ [(i, Ammo)]\<rparr>"
      by (simp add: subtractSingleAttackAmmo_def Let_def split: if_splits)
    with a w show ?thesis by (simp add: sameControl_def itemsAfter_def)
  next
    case w: False
    with True r have "s1 = s"
      by (auto simp: subtractSingleAttackAmmo_def ammoWritten_def Let_def
          split: option.splits if_splits)
    with w show ?thesis
      by (auto simp: sameControl_def itemsAfter_def split: option.splits)
  qed
qed

lemma subtractCharges_result:
  assumes "subtractCharges f i atk s = Inr s2"
  shows "sameControl s s2 \<and> items s2 = items s \<and>
         commits s2 = commits s @ (if chargeWritten atk then [(i, Charge)] else []) \<and>
         cards s2 = cards s \<and> item_charges s2 = chargesAfter s atk \<and> selfUses s2 = selfUses s"
  using assms
  by (auto simp: subtractCharges_def chargeWritten_def chargesAfter_def sameControl_def Let_def
      split: chargeCostVal.splits if_splits)

lemma subtractSelfUse_result:
  assumes "subtractSelfUse f i s = Inr s3"
  shows "sameControl s s3 \<and> items s3 = items s \<and>
         commits s3 = commits s @ (if i = 0 \<and> isSelfCharged (act s) then [(i, SelfUse)] else []) \<and>
         cards s3 = cards s \<and> item_charges s3 = item_charges s \<and>
         selfUses s3 = (if i = 0 \<and> isSelfCharged (act s) then selfUses s - 1 else selfUses s)"
  using assms
  by (auto simp: subtractSelfUse_def sameControl_def split: if_splits)

lemma postCard_result:
  assumes "postCard e i atk s = Inr s'"
  shows "sameControl s s' \<and> items s' = items s \<and> commits s' = commits s \<and>
         map card_idx (cards s') = map card_idx (cards s) @ [i] \<and>
         item_charges s' = item_charges s \<and> selfUses s' = selfUses s"
  using assms
  by (auto simp: postCard_def sameControl_def Let_def split: if_splits)

lemma commitAndPost_result:
  assumes "commitAndPost e i atk s = Inr s'" and "hookResult e" and "\<not> scriptReject e"
  shows "sameControl s s' \<and> items s' = itemsAfter s atk \<and>
         commits s' = commits s @ stepWrites s i atk \<and>
         map card_idx (cards s') = map card_idx (cards s) @ [i] \<and>
         item_charges s' = chargesAfter s atk \<and>
         selfUses s' = (if i = 0 \<and> isSelfCharged (act s) then selfUses s - 1 else selfUses s)"
proof -
  from assms obtain s1 s2 s3 where
    s1: "ammoStep e i atk s = Inr s1" and
    s2: "subtractCharges (throwAt e = AtChargeCommit) i atk s1 = Inr s2" and
    s3: "subtractSelfUse (throwAt e = AtSelfCharge) i s2 = Inr s3" and
    s4: "postCard e i atk s3 = Inr s'"
    by (auto simp: commitAndPost_Inr_iff)
  note r1 = ammoStep_result [OF s1] and r2 = subtractCharges_result [OF s2]
    and r3 = subtractSelfUse_result [OF s3] and r4 = postCard_result [OF s4]
  have c1: "sameControl s s1" and c2: "sameControl s1 s2" and c3: "sameControl s2 s3"
    and c4: "sameControl s3 s'" using r1 r2 r3 r4 by simp_all
  have act: "act s1 = act s" "act s2 = act s" using c1 c2 by (simp_all add: sameControl_def)
  have "sameControl s s'" using c1 c2 c3 c4 by (blast intro: sameControl_trans)
  moreover have "items s' = itemsAfter s atk" using r1 r2 r3 r4 by simp
  moreover have "commits s' = commits s @ stepWrites s i atk"
    using r1 r2 r3 r4 act by (simp add: stepWrites_def)
  moreover have "map card_idx (cards s') = map card_idx (cards s) @ [i]"
    using r1 r2 r3 r4 by simp
  moreover have "item_charges s' = chargesAfter s atk"
  proof -
    have "item_charges s1 = item_charges s" using r1 by simp
    then have "chargesAfter s1 atk = chargesAfter s atk" by (simp add: chargesAfter_def split: chargeCostVal.splits)
    moreover have "item_charges s' = chargesAfter s1 atk" using r2 r3 r4 by simp
    ultimately show ?thesis by simp
  qed
  moreover have "selfUses s' = (if i = 0 \<and> isSelfCharged (act s) then selfUses s - 1 else selfUses s)"
    using r1 r2 r3 r4 act by simp
  ultimately show ?thesis by simp
qed

lemma commitAndPost_vetoed:
  assumes "\<not> (hookResult e \<and> \<not> scriptReject e)"
  shows "commitAndPost e i atk s = Inr s"
  using assms by (auto simp: commitAndPost_def)

lemma commitAndPost_early_returns:
  assumes "beforeCommit (throwAt e)"
  shows "\<not> isl (commitAndPost e i atk s)"
proof
  assume "isl (commitAndPost e i atk s)"
  then obtain s' where l: "commitAndPost e i atk s = Inl s'"
    by (cases "commitAndPost e i atk s") auto
  from assms have t: "throwAt e \<noteq> AtAmmoCommit" "(throwAt e = AtChargeCommit) = False"
    "(throwAt e = AtSelfCharge) = False" "throwAt e \<noteq> AtPost" "throwAt e \<noteq> AtPostUse"
    by (auto simp: beforeCommit_def)
  from l [unfolded commitAndPost_Inl_iff t]
    ammoStep_returns [OF t(1)] subtractCharges_returns subtractSelfUse_returns
    postCard_returns [OF t(4) t(5)]
  show False by (metis sum.disc(1))
qed


lemma sameWorld_refl: "sameWorld s s"
  by (simp add: sameWorld_def)

lemma sameWorld_trans: "sameWorld s t \<Longrightarrow> sameWorld t u \<Longrightarrow> sameWorld s u"
  by (simp add: sameWorld_def)

lemma isolate_world: "sameWorld s (isolateAttack i s)"
  by (simp add: sameWorld_def isolateAttack_def)

lemma markResolved_world: "sameWorld s (markResolved i orig s)"
  by (simp add: sameWorld_def markResolved_def updateDialog_def Let_def)

lemma markResolved_static:
  "act (markResolved i orig s) = act s \<and> notifications (markResolved i orig s) = notifications s"
  by (simp add: markResolved_def updateDialog_def Let_def)

lemma ammoWritten_cong:
  assumes "items t = items s" and "act t = act s"
  shows "ammoWritten t atk = ammoWritten s atk"
  using assms by (simp add: ammoWritten_def cong: option.case_cong)

lemma writes_cong:
  assumes "items t = items s" and "act t = act s"
  shows "stepWrites t i atk = stepWrites s i atk" and "itemsAfter t atk = itemsAfter s atk"
  using assms ammoWritten_cong [OF assms, of atk]
  by (simp_all add: stepWrites_def itemsAfter_def split: option.splits)

lemma stepContext_world: "sameWorld s (stepContext e s)"
  by (simp add: sameWorld_def stepContext_def clearCharge_def Let_def)

lemma resolvePromise_world [simp]:
  "sameWorld s (resolvePromise v t) = sameWorld s t"
  "act (resolvePromise v t) = act t"
  by (simp_all add: sameWorld_def resolvePromise_def split: option.splits)

lemma closeDialog_world [simp]:
  "sameWorld s (closeDialog t) = sameWorld s t"
  "act (closeDialog t) = act t"
  by (simp_all add: sameWorld_def closeDialog_def resolvePromise_def Let_def split: option.splits)

lemma chargesAfter_cong:
  assumes "item_charges t = item_charges s"
  shows "chargesAfter t atk = chargesAfter s atk"
  using assms by (simp add: chargesAfter_def split: chargeCostVal.splits)

text \<open>The cases of one call of the Next listener whose host calls throw, if at all, before the first write.\<close>

lemma advance_effect:
  assumes "beforeCommit (throwAt e)"
  shows "act (handler (Advance e) s) = act s \<and> allAttacks (handler (Advance e) s) = allAttacks s \<and>
    skippedIndices (handler (Advance e) s) = skippedIndices s \<and>
    ((sameWorld s (handler (Advance e) s) \<and>
      currentIndex (handler (Advance e) s) = currentIndex s \<and>
      resolvedIndices (handler (Advance e) s) = resolvedIndices s) \<or>
     (currentIndex s < length (allAttacks s) \<and>
      currentIndex (handler (Advance e) s) = Suc (currentIndex s) \<and>
      resolvedIndices (handler (Advance e) s) = insert (currentIndex s) (resolvedIndices s) \<and>
      (sameWorld s (handler (Advance e) s) \<and> \<not> (hookResult e \<and> \<not> scriptReject e) \<or>
       hookResult e \<and> \<not> scriptReject e \<and>
       items (handler (Advance e) s) = itemsAfter s (allAttacks s ! currentIndex s) \<and>
       item_charges (handler (Advance e) s) = chargesAfter s (allAttacks s ! currentIndex s) \<and>
       commits (handler (Advance e) s) =
         commits s @ stepWrites s (currentIndex s) (allAttacks s ! currentIndex s) \<and>
       map card_idx (cards (handler (Advance e) s)) =
         map card_idx (cards s) @ [currentIndex s])))"
proof -
  let ?i = "currentIndex s"
  let ?atk = "allAttacks s ! ?i"
  let ?s2 = "isolateAttack ?i (stepContext e s)"
  have w2: "sameWorld s ?s2"
    using stepContext_world [of s e] isolate_world [of "stepContext e s" ?i]
    by (rule sameWorld_trans)
  have c2: "sameControl s ?s2"
    using stepContext_control [of s e] isolate_control [of "stepContext e s" ?i]
    by (rule sameControl_trans)
  have it2: "items ?s2 = items s" "act ?s2 = act s" "item_charges ?s2 = item_charges s"
    using w2 c2 by (simp_all add: sameWorld_def sameControl_def)
  show ?thesis
  proof (cases "resolveCurrentAttack e s")
    case (Inl s')
    from resolve_Inl_cases [OF Inl] commitAndPost_early_returns [OF assms, of ?i ?atk ?s2]
    have "s' = s \<or> s' = stepContext e s \<or> s' = ?s2" by auto
    then have "sameWorld s s' \<and> sameControl s s'"
      using w2 c2 stepContext_world [of s e] stepContext_control [of s e]
        sameWorld_refl [of s] sameControl_refl [of s] by auto
    with Inl show ?thesis by (simp add: handler_def sameWorld_def sameControl_def)
  next
    case (Inr s')
    from resolve_Inr_cases [OF Inr] obtain s3 where
      lt: "?i < length (allAttacks s)" and
      cp: "commitAndPost e ?i ?atk ?s2 = Inr s3" and
      s': "s' = markResolved ?i (shared_attacks (stepContext e s)) s3"
      by auto
    have h: "handler (Advance e) s = markResolved ?i (shared_attacks (stepContext e s)) s3"
      using Inr s' by (simp add: handler_def)
    have c3: "sameControl s s3"
      using c2 commitAndPost_control [of ?s2 e ?i ?atk] cp by (auto intro: sameControl_trans)
    have idx: "act (handler (Advance e) s) = act s \<and>
        allAttacks (handler (Advance e) s) = allAttacks s \<and>
        skippedIndices (handler (Advance e) s) = skippedIndices s \<and>
        currentIndex (handler (Advance e) s) = Suc ?i \<and>
        resolvedIndices (handler (Advance e) s) = insert ?i (resolvedIndices s)"
      unfolding h using c3 markResolved_index [of ?i "shared_attacks (stepContext e s)" s3]
        markResolved_static [of ?i "shared_attacks (stepContext e s)" s3]
      by (simp add: sameControl_def)
    have mw: "sameWorld s3 (handler (Advance e) s)" unfolding h by (rule markResolved_world)
    show ?thesis
    proof (cases "hookResult e \<and> \<not> scriptReject e")
      case False
      with cp commitAndPost_vetoed [of e ?i ?atk ?s2] have "s3 = ?s2" by simp
      with w2 mw have "sameWorld s (handler (Advance e) s)" by (auto intro: sameWorld_trans)
      with idx lt False show ?thesis by simp
    next
      case True
      then have r: "items s3 = itemsAfter ?s2 ?atk \<and>
         commits s3 = commits ?s2 @ stepWrites ?s2 ?i ?atk \<and>
         map card_idx (cards s3) = map card_idx (cards ?s2) @ [?i] \<and>
         item_charges s3 = chargesAfter ?s2 ?atk"
        using commitAndPost_result [OF cp] by simp
      have "items s3 = itemsAfter s ?atk \<and>
         commits s3 = commits s @ stepWrites s ?i ?atk \<and>
         map card_idx (cards s3) = map card_idx (cards s) @ [?i] \<and>
         item_charges s3 = chargesAfter s ?atk"
        using r w2 writes_cong [OF it2(1) it2(2)] chargesAfter_cong [OF it2(3)]
        by (simp add: sameWorld_def)
      with mw have "items (handler (Advance e) s) = itemsAfter s ?atk \<and>
         commits (handler (Advance e) s) = commits s @ stepWrites s ?i ?atk \<and>
         map card_idx (cards (handler (Advance e) s)) = map card_idx (cards s) @ [?i] \<and>
         item_charges (handler (Advance e) s) = chargesAfter s ?atk"
        by (simp add: sameWorld_def)
      with idx lt True show ?thesis by simp
    qed
  qed
qed

lemma other_effect:
  assumes "c = Skip \<or> c = Cancel \<or> c = Done \<or> c = CloseWindow \<or> c = Timer"
  shows "sameWorld s (handler c s) \<and> act (handler c s) = act s \<and>
         allAttacks (handler c s) = allAttacks s \<and>
         resolvedIndices (handler c s) = resolvedIndices s"
proof -
  have "sameWorld s (skipCurrentAttack s) \<and> act (skipCurrentAttack s) = act s"
    by (simp add: sameWorld_def skipCurrentAttack_def updateDialog_def Let_def)
  moreover have "sameWorld s (s\<lparr>completed := True\<rparr>)" by (simp add: sameWorld_def)
  ultimately show ?thesis
    using assms skip_index [of s] by (auto simp: handler_def sameWorld_refl)
qed

section \<open>Writes and cards of a run\<close>

lemma stepWrites_props:
  "distinct (stepWrites s i atk) \<and> (\<forall>w \<in> set (stepWrites s i atk). fst w = i)"
  by (simp add: stepWrites_def)

lemma commitInv_alt:
  "commitInv s \<longleftrightarrow>
     distinct (commits s) \<and> (\<forall>w \<in> set (commits s). fst w \<in> resolvedIndices s) \<and>
     distinct (map card_idx (cards s)) \<and>
     (\<forall>i \<in> set (map card_idx (cards s)). i \<in> resolvedIndices s)"
  by (auto simp: commitInv_def list_all_iff)

lemma fresh_index:
  assumes "indexInv s"
  shows "currentIndex s \<notin> resolvedIndices s" and "currentIndex s \<notin> skippedIndices s"
proof -
  from assms have "resolvedIndices s \<union> skippedIndices s = {0..<currentIndex s}"
    by (simp add: indexInv_def)
  then have "currentIndex s \<notin> resolvedIndices s \<union> skippedIndices s" by simp
  then show "currentIndex s \<notin> resolvedIndices s" and "currentIndex s \<notin> skippedIndices s"
    by simp_all
qed

lemma advance_commitInv:
  assumes i: "indexInv s" and c: "commitInv s" and b: "beforeCommit (throwAt e)"
  shows "commitInv (handler (Advance e) s)"
proof -
  let ?h = "handler (Advance e) s"
  let ?i = "currentIndex s"
  from c have d: "distinct (commits s)" and r: "\<forall>w \<in> set (commits s). fst w \<in> resolvedIndices s"
    and dc: "distinct (map card_idx (cards s))"
    and rc: "\<forall>i \<in> set (map card_idx (cards s)). i \<in> resolvedIndices s"
    by (simp_all add: commitInv_alt)
  from fresh_index(1) [OF i] r have nw: "\<forall>w \<in> set (commits s). fst w \<noteq> ?i" by auto
  from fresh_index(1) [OF i] rc have nc: "?i \<notin> set (map card_idx (cards s))" by auto
  from advance_effect [OF b, of s]
  consider
    (same) "sameWorld s ?h" "resolvedIndices ?h = resolvedIndices s"
  | (veto) "sameWorld s ?h" "resolvedIndices ?h = insert ?i (resolvedIndices s)"
  | (wrote) "resolvedIndices ?h = insert ?i (resolvedIndices s)"
      "commits ?h = commits s @ stepWrites s ?i (allAttacks s ! ?i)"
      "map card_idx (cards ?h) = map card_idx (cards s) @ [?i]"
    by blast
  then show ?thesis
  proof cases
    case same
    with d r dc rc show ?thesis by (simp add: commitInv_alt sameWorld_def)
  next
    case veto
    with d r dc rc show ?thesis by (simp add: commitInv_alt sameWorld_def)
  next
    case wrote
    have "distinct (commits ?h)"
      unfolding wrote(2) using d nw stepWrites_props [of s ?i "allAttacks s ! ?i"] by auto
    moreover have "\<forall>w \<in> set (commits ?h). fst w \<in> resolvedIndices ?h"
      unfolding wrote(1) wrote(2) using r stepWrites_props [of s ?i "allAttacks s ! ?i"] by auto
    moreover have "distinct (map card_idx (cards ?h))"
      unfolding wrote(3) using dc nc by simp
    moreover have "\<forall>i \<in> set (map card_idx (cards ?h)). i \<in> resolvedIndices ?h"
      unfolding wrote(1) wrote(3) using rc by auto
    ultimately show ?thesis by (simp add: commitInv_alt)
  qed
qed

lemma handler_commitInv:
  assumes i: "indexInv s" and c: "commitInv s"
    and b: "case c' of Advance e \<Rightarrow> beforeCommit (throwAt e) | _ \<Rightarrow> True"
  shows "commitInv (handler c' s)"
proof (cases c')
  case (Advance e)
  with b have "beforeCommit (throwAt e)" by simp
  with i c Advance show ?thesis by (simp add: advance_commitInv)
next
  case Skip
  with other_effect [of c' s] c show ?thesis by (simp add: commitInv_alt sameWorld_def)
next
  case Cancel
  with other_effect [of c' s] c show ?thesis by (simp add: commitInv_alt sameWorld_def)
next
  case Done
  with other_effect [of c' s] c show ?thesis by (simp add: commitInv_alt sameWorld_def)
next
  case CloseWindow
  with other_effect [of c' s] c show ?thesis by (simp add: commitInv_alt sameWorld_def)
next
  case Timer
  with other_effect [of c' s] c show ?thesis by (simp add: commitInv_alt sameWorld_def)
qed

lemma advance_never_returns:
  assumes "throwAt e = Never" and "currentIndex s < length (allAttacks s)"
    and "\<not> missingAmmo (allAttacks s ! currentIndex s)"
  shows "\<not> isl (resolveCurrentAttack e s)"
proof -
  from assms(1) have "beforeCommit (throwAt e)" by (simp add: beforeCommit_def)
  then have "\<not> isl (commitAndPost e (currentIndex s) (allAttacks s ! currentIndex s)
      (isolateAttack (currentIndex s) (stepContext e s)))"
    by (rule commitAndPost_early_returns)
  then obtain s3 where "commitAndPost e (currentIndex s) (allAttacks s ! currentIndex s)
      (isolateAttack (currentIndex s) (stepContext e s)) = Inr s3"
    by (cases "commitAndPost e (currentIndex s) (allAttacks s ! currentIndex s)
      (isolateAttack (currentIndex s) (stepContext e s))") auto
  with assms show ?thesis by (simp add: resolveCurrentAttack_def Let_def)
qed

lemma advance_returns_effect:
  assumes n: "throwAt e = Never" and lt: "currentIndex s < length (allAttacks s)"
    and am: "\<not> missingAmmo (allAttacks s ! currentIndex s)"
  shows "currentIndex s \<in> resolvedIndices (handler (Advance e) s) \<and>
         (if hookResult e \<and> \<not> scriptReject e then
            commits (handler (Advance e) s) =
              commits s @ stepWrites s (currentIndex s) (allAttacks s ! currentIndex s) \<and>
            map card_idx (cards (handler (Advance e) s)) =
              map card_idx (cards s) @ [currentIndex s] \<and>
            items (handler (Advance e) s) = itemsAfter s (allAttacks s ! currentIndex s) \<and>
            item_charges (handler (Advance e) s) = chargesAfter s (allAttacks s ! currentIndex s)
          else sameWorld s (handler (Advance e) s))"
proof -
  from n have b: "beforeCommit (throwAt e)" by (simp add: beforeCommit_def)
  from advance_never_returns [OF n lt am] obtain s' where r: "resolveCurrentAttack e s = Inr s'"
    by (cases "resolveCurrentAttack e s") auto
  with resolve_control [of e s s'] obtain s3 where
    "sameControl s s3" "s' = markResolved (currentIndex s) (shared_attacks (stepContext e s)) s3"
    by auto
  with r have "currentIndex (handler (Advance e) s) = Suc (currentIndex s)"
    by (simp add: handler_def markResolved_index)
  with advance_effect [OF b, of s] show ?thesis by auto
qed

section \<open>The balance of the ammunition\<close>

lemma remaining_step:
  assumes "allAttacks t = allAttacks s" and "currentIndex t = Suc (currentIndex s)"
  shows "remaining s aid =
           (if currentIndex s < length (allAttacks s) \<and> hasAmmo (allAttacks s ! currentIndex s) \<and>
               ammo (allAttacks s ! currentIndex s) = Some aid then 1 else 0) + remaining t aid"
proof (cases "currentIndex s < length (allAttacks s)")
  case True
  then have "drop (currentIndex s) (allAttacks s) =
      allAttacks s ! currentIndex s # drop (Suc (currentIndex s)) (allAttacks s)"
    by (simp add: Cons_nth_drop_Suc)
  with True assms show ?thesis by (simp add: remaining_def)
next
  case False
  with assms show ?thesis by (simp add: remaining_def)
qed

lemma covers_same:
  assumes "items t = items s" and "act t = act s" and "allAttacks t = allAttacks s"
    and "currentIndex t = currentIndex s"
  shows "covers t aid = covers s aid"
proof -
  have "remaining t aid = remaining s aid" using assms by (simp add: remaining_def)
  with assms show ?thesis by (simp add: covers_def split: option.splits)
qed

lemma covers_less:
  assumes "0 \<le> ammo_cost (act s)" and "covers s aid"
    and "items t aid = items s aid" and "act t = act s" and "remaining t aid \<le> remaining s aid"
  shows "covers t aid"
proof (cases "items s aid")
  case None
  with assms(3) show ?thesis by (simp add: covers_def)
next
  case (Some it)
  have "ammo_cost (act s) * int (remaining t aid) \<le> ammo_cost (act s) * int (remaining s aid)"
    using assms(1,5) by (simp add: mult_left_mono)
  with Some assms(2,3,4) show ?thesis by (auto simp: covers_def)
qed

lemma covers_written:
  assumes "covers s aid" and "ammoWritten s atk" and "ammo atk = Some aid"
    and "items t = itemsAfter s atk" and "act t = act s"
    and "remaining s aid = 1 + remaining t aid"
  shows "covers t aid"
proof -
  from assms(2,3) obtain it where it: "items s aid = Some it" "\<not> abundant it"
    by (auto simp: ammoWritten_def split: option.splits)
  with assms(1) have le: "ammo_cost (act s) * int (remaining s aid) \<le> balance it"
    by (simp add: covers_def)
  have "items t aid = Some (it\<lparr>quantity := Some (balance it - ammo_cost (act s))\<rparr>)"
    using assms(2,3,4) it by (simp add: itemsAfter_def)
  moreover have "ammo_cost (act s) * int (remaining t aid) \<le> balance it - ammo_cost (act s)"
    using le assms(6) by (simp add: algebra_simps)
  ultimately show ?thesis using assms(5) by (simp add: covers_def balance_def)
qed

lemma itemsAfter_other:
  assumes "\<not> (ammoWritten s atk \<and> ammo atk = Some aid)"
  shows "itemsAfter s atk aid = items s aid"
  using assms by (auto simp: itemsAfter_def split: option.splits)


lemma advance_static:
  assumes "beforeCommit (throwAt e)"
  shows "act (handler (Advance e) s) = act s" and "allAttacks (handler (Advance e) s) = allAttacks s"
    and "skippedIndices (handler (Advance e) s) = skippedIndices s"
proof -
  note eff = advance_effect [OF assms, of s]
  from eff show "act (handler (Advance e) s) = act s" by (rule conjunct1)
  from eff [THEN conjunct2] show "allAttacks (handler (Advance e) s) = allAttacks s"
    by (rule conjunct1)
  from eff [THEN conjunct2, THEN conjunct2]
  show "skippedIndices (handler (Advance e) s) = skippedIndices s" by (rule conjunct1)
qed

lemma advance_cases:
  assumes "beforeCommit (throwAt e)"
  obtains
    (same) "sameWorld s (handler (Advance e) s)"
      "currentIndex (handler (Advance e) s) = currentIndex s"
      "resolvedIndices (handler (Advance e) s) = resolvedIndices s"
  | (veto) "currentIndex s < length (allAttacks s)"
      "currentIndex (handler (Advance e) s) = Suc (currentIndex s)"
      "resolvedIndices (handler (Advance e) s) = insert (currentIndex s) (resolvedIndices s)"
      "sameWorld s (handler (Advance e) s)" "\<not> (hookResult e \<and> \<not> scriptReject e)"
  | (wrote) "currentIndex s < length (allAttacks s)"
      "currentIndex (handler (Advance e) s) = Suc (currentIndex s)"
      "resolvedIndices (handler (Advance e) s) = insert (currentIndex s) (resolvedIndices s)"
      "hookResult e" "\<not> scriptReject e"
      "items (handler (Advance e) s) = itemsAfter s (allAttacks s ! currentIndex s)"
      "item_charges (handler (Advance e) s) = chargesAfter s (allAttacks s ! currentIndex s)"
      "commits (handler (Advance e) s) =
         commits s @ stepWrites s (currentIndex s) (allAttacks s ! currentIndex s)"
      "map card_idx (cards (handler (Advance e) s)) = map card_idx (cards s) @ [currentIndex s]"
proof -
  from advance_effect [OF assms, of s, THEN conjunct2, THEN conjunct2, THEN conjunct2]
  show thesis
  proof (elim disjE conjE)
    assume "sameWorld s (handler (Advance e) s)"
      "currentIndex (handler (Advance e) s) = currentIndex s"
      "resolvedIndices (handler (Advance e) s) = resolvedIndices s"
    then show thesis by (rule same)
  next
    assume "currentIndex s < length (allAttacks s)"
      "currentIndex (handler (Advance e) s) = Suc (currentIndex s)"
      "resolvedIndices (handler (Advance e) s) = insert (currentIndex s) (resolvedIndices s)"
      "sameWorld s (handler (Advance e) s)" "\<not> (hookResult e \<and> \<not> scriptReject e)"
    then show thesis by (rule veto)
  next
    assume "currentIndex s < length (allAttacks s)"
      "currentIndex (handler (Advance e) s) = Suc (currentIndex s)"
      "resolvedIndices (handler (Advance e) s) = insert (currentIndex s) (resolvedIndices s)"
      "hookResult e" "\<not> scriptReject e"
      "items (handler (Advance e) s) = itemsAfter s (allAttacks s ! currentIndex s)"
      "item_charges (handler (Advance e) s) = chargesAfter s (allAttacks s ! currentIndex s)"
      "commits (handler (Advance e) s) =
         commits s @ stepWrites s (currentIndex s) (allAttacks s ! currentIndex s)"
      "map card_idx (cards (handler (Advance e) s)) = map card_idx (cards s) @ [currentIndex s]"
    then show thesis by (rule wrote)
  qed
qed


lemma advance_covers:
  assumes nn: "0 \<le> ammo_cost (act s)" and cov: "\<forall>aid. covers s aid"
    and b: "beforeCommit (throwAt e)"
  shows "covers (handler (Advance e) s) aid"
proof -
  let ?h = "handler (Advance e) s"
  let ?atk = "allAttacks s ! currentIndex s"
  note st = advance_static(1,2) [OF b, of s]
  from cov have c: "covers s aid" by simp
  from b show ?thesis
  proof (cases rule: advance_cases [where s = s])
    case same
    from same(1) have "items ?h = items s" by (simp add: sameWorld_def)
    with same(2) st have "covers ?h aid = covers s aid" by (intro covers_same) simp_all
    with c show ?thesis by simp
  next
    case veto
    from veto(4) have "items ?h = items s" by (simp add: sameWorld_def)
    moreover from remaining_step [OF st(2) veto(2), of aid]
    have "remaining ?h aid \<le> remaining s aid" by simp
    ultimately show ?thesis using nn c st(1) by - (rule covers_less [of s], simp_all)
  next
    case wrote
    note r = remaining_step [OF st(2) wrote(2), of aid]
    show ?thesis
    proof (cases "ammoWritten s ?atk \<and> ammo ?atk = Some aid")
      case True
      then have "hasAmmo ?atk" by (simp add: ammoWritten_def)
      with True wrote(1) r have "remaining s aid = 1 + remaining ?h aid" by simp
      with c True wrote(6) st(1) show ?thesis by - (rule covers_written [of s aid ?atk], simp_all)
    next
      case False
      then have "items ?h aid = items s aid" using wrote(6) by (simp add: itemsAfter_other)
      moreover from r have "remaining ?h aid \<le> remaining s aid" by simp
      ultimately show ?thesis using nn c st(1) by - (rule covers_less [of s], simp_all)
    qed
  qed
qed

lemma handler_covers:
  assumes nn: "0 \<le> ammo_cost (act s)" and cov: "\<forall>aid. covers s aid"
    and b: "case c of Advance e \<Rightarrow> beforeCommit (throwAt e) | _ \<Rightarrow> True"
  shows "covers (handler c s) aid"
proof (cases c)
  case (Advance e)
  with b have "beforeCommit (throwAt e)" by simp
  with nn cov Advance show ?thesis by (simp add: advance_covers)
next
  case Skip
  from other_effect [of c s] Skip have e: "items (handler c s) = items s" "act (handler c s) = act s"
    "allAttacks (handler c s) = allAttacks s" by (simp_all add: sameWorld_def)
  have "currentIndex (handler c s) = Suc (currentIndex s)"
    using Skip skip_index [of s] by (simp add: handler_def)
  from remaining_step [OF e(3) this, of aid] have "remaining (handler c s) aid \<le> remaining s aid"
    by simp
  with nn cov e show ?thesis by - (rule covers_less [of s], simp_all)
next
  case Cancel
  with other_effect [of c s] other_index [of c s] have "covers (handler c s) aid = covers s aid"
    by (intro covers_same) (simp_all add: sameWorld_def)
  with cov show ?thesis by simp
next
  case Done
  with other_effect [of c s] other_index [of c s] have "covers (handler c s) aid = covers s aid"
    by (intro covers_same) (simp_all add: sameWorld_def)
  with cov show ?thesis by simp
next
  case CloseWindow
  with other_effect [of c s] other_index [of c s] have "covers (handler c s) aid = covers s aid"
    by (intro covers_same) (simp_all add: sameWorld_def)
  with cov show ?thesis by simp
next
  case Timer
  with other_effect [of c s] other_index [of c s] have "covers (handler c s) aid = covers s aid"
    by (intro covers_same) (simp_all add: sameWorld_def)
  with cov show ?thesis by simp
qed

lemma handler_act: "act (handler c s) = act s"
proof (cases c)
  case (Advance e)
  show ?thesis
  proof (cases "resolveCurrentAttack e s")
    case (Inl s')
    with resolve_control [of e s s'] Advance show ?thesis
      by (simp add: handler_def sameControl_def)
  next
    case (Inr s')
    with resolve_control [of e s s'] Advance show ?thesis
      by (auto simp: handler_def sameControl_def markResolved_static)
  qed
qed (use other_effect [of c s] in auto)

lemma covers_nonNegative:
  assumes "0 \<le> ammo_cost (act s)" and "covers s aid"
  shows "nonNegative s aid"
proof (cases "items s aid")
  case None
  then show ?thesis by (simp add: nonNegative_def)
next
  case (Some it)
  have "0 \<le> ammo_cost (act s) * int (remaining s aid)" using assms(1) by simp
  with Some assms(2) show ?thesis by (auto simp: nonNegative_def covers_def)
qed

section \<open>The controls of a settled tracker\<close>

lemma gateInv_cong:
  assumes "sameControl s t"
  shows "gateInv t = gateInv s"
  using assms by (simp add: gateInv_def sameControl_def)

lemma updateDialog_gate:
  assumes "dialogOpen s \<or> rendered s = []" and "promise s = None \<or> \<not> dialogOpen s"
  shows "gateInv (updateDialog s)"
  using assms by (auto simp: gateInv_def updateDialog_def buildButtons_def Let_def)

lemma markResolved_gate:
  assumes "gateInv s"
  shows "gateInv (markResolved i orig s)"
proof -
  from assms have a: "dialogOpen s \<or> rendered s = []" "promise s = None \<or> \<not> dialogOpen s"
    by (simp_all add: gateInv_def)
  show ?thesis
    unfolding markResolved_def Let_def
    by (rule updateDialog_gate) (use a in auto)
qed

lemma skip_gate:
  assumes "gateInv s"
  shows "gateInv (skipCurrentAttack s)"
proof -
  from assms have a: "dialogOpen s \<or> rendered s = []" "promise s = None \<or> \<not> dialogOpen s"
    by (simp_all add: gateInv_def)
  show ?thesis
    unfolding skipCurrentAttack_def Let_def
    by (rule updateDialog_gate) (use a in auto)
qed

lemma closing_gate:
  assumes "gateInv s"
  shows "gateInv (closeDialog (resolvePromise ''cancelled'' (s\<lparr>completed := True\<rparr>)))"
    and "gateInv (resolvePromise ''completed'' (closeDialog (s\<lparr>completed := True\<rparr>)))"
    and "gateInv (closeDialog s)"
    and "gateInv (if dialogOpen s then closeDialog (resolvePromise ''completed'' s) else s)"
  using assms
  by (auto simp: gateInv_def closeDialog_def resolvePromise_def Let_def split: option.splits)

lemma handler_gate:
  assumes "gateInv s"
  shows "gateInv (handler c s)"
proof (cases c)
  case (Advance e)
  show ?thesis
  proof (cases "resolveCurrentAttack e s")
    case (Inl s')
    with resolve_control [of e s s'] have c: "sameControl s s'" by simp
    then have "sameControl s (s'\<lparr>notifications := notifications s' @ [''Error resolving attack. Check console.'']\<rparr>)
        \<or> gateInv (s'\<lparr>notifications := notifications s' @ [''Error resolving attack. Check console.'']\<rparr>) = gateInv s'"
      by (simp add: gateInv_def)
    with c assms Inl Advance show ?thesis
      by (auto simp: handler_def gateInv_cong)
  next
    case (Inr s')
    with resolve_control [of e s s'] obtain s3 where
      c: "sameControl s s3" and s': "s' = markResolved (currentIndex s) (shared_attacks (stepContext e s)) s3"
      by auto
    from c assms have "gateInv s3" by (simp add: gateInv_cong)
    then have "gateInv s'" unfolding s' by (rule markResolved_gate)
    with Inr Advance show ?thesis by (simp add: handler_def)
  qed
next
  case Skip
  with assms show ?thesis by (simp add: handler_def skip_gate)
next
  case Cancel
  with closing_gate(1) [OF assms] show ?thesis by (simp add: handler_def)
next
  case Done
  with closing_gate(2) [OF assms] show ?thesis by (simp add: handler_def)
next
  case CloseWindow
  with closing_gate(3) [OF assms] show ?thesis by (simp add: handler_def)
next
  case Timer
  with closing_gate(4) [OF assms] show ?thesis by (simp add: handler_def)
qed

lemma dispatch_gate:
  assumes "gateInv s"
  shows "gateInv (dispatch c s)"
  using assms by (simp add: dispatch_def handler_gate)

lemma runUI_snoc: "runUI (cs @ [c]) s = dispatch c (runUI cs s)"
  by (simp add: runUI_def)

lemma start_gate: "gateInv (startTracker host atks)"
  by (simp add: gateInv_def startTracker_def)

section \<open>Calls taken one at a time\<close>

lemmas live_defs = runEvents_def liveStep_def beginCall_def endCall_def rerender_def
  resolveTail_def startLive_def serial_def

lemma stepContext_allAttacks: "allAttacks (stepContext e s) = allAttacks s"
  using stepContext_control [of s e] by (simp add: sameControl_def)

lemma resolve_as_tail:
  "resolveCurrentAttack e s =
     (if throwAt e = AtGetRollData then Inl s
      else resolveTail e (currentIndex s) (stepContext e s))"
  by (simp add: resolveCurrentAttack_def resolveTail_def Let_def stepContext_allAttacks)

lemma runEvents_append: "runEvents (xs @ ys) a = runEvents ys (runEvents xs a)"
  by (simp add: runEvents_def)

lemma advance_serial:
  assumes "quiet a"
  shows "trk (runEvents [ClickNext e, Resume 0] a) = dispatch (Advance e) (trk a) \<and>
         quiet (runEvents [ClickNext e, Resume 0] a)"
proof (cases "available (trk a) (Advance e)")
  case False
  with assms show ?thesis
    by (simp add: quiet_def runEvents_def liveStep_def dispatch_def)
next
  case av: True
  show ?thesis
  proof (cases "throwAt e = AtGetRollData")
    case True
    with av assms show ?thesis
      by (simp add: quiet_def runEvents_def liveStep_def beginCall_def dispatch_def handler_def
            resolve_as_tail Let_def)
  next
    case False
    show ?thesis
    proof (cases "resolveTail e (currentIndex (trk a)) (stepContext e (trk a))")
      case (Inl s')
      with av False assms show ?thesis
        by (simp add: quiet_def runEvents_def liveStep_def beginCall_def endCall_def
              dispatch_def handler_def resolve_as_tail Let_def)
    next
      case (Inr s')
      with av False assms show ?thesis
        by (simp add: quiet_def runEvents_def liveStep_def beginCall_def endCall_def
              rerender_def dispatch_def handler_def resolve_as_tail Let_def)
    qed
  qed
qed

lemma serialOf_dispatch:
  assumes "quiet a"
  shows "trk (runEvents (serialOf c) a) = dispatch c (trk a) \<and> quiet (runEvents (serialOf c) a)"
proof (cases c)
  case (Advance e)
  with advance_serial [OF assms, of e] show ?thesis by simp
next
  case Skip
  with assms show ?thesis
    by (simp add: quiet_def runEvents_def liveStep_def rerender_def dispatch_def handler_def)
qed (use assms in \<open>simp_all add: quiet_def runEvents_def liveStep_def\<close>)

lemma serial_snoc: "serial (cs @ [c]) = serial cs @ serialOf c"
  by (simp add: serial_def)

lemma serial_runUI:
  assumes "quiet a"
  shows "trk (runEvents (serial cs) a) = runUI cs (trk a) \<and> quiet (runEvents (serial cs) a)"
proof (induction cs rule: rev_induct)
  case Nil
  from assms show ?case by (simp add: serial_def runEvents_def runUI_def)
next
  case (snoc c cs)
  then have q: "quiet (runEvents (serial cs) a)"
    and t: "trk (runEvents (serial cs) a) = runUI cs (trk a)" by simp_all
  from serialOf_dispatch [OF q, of c] t show ?case
    by (simp add: serial_snoc runEvents_append runUI_snoc)
qed

lemma start_quiet: "quiet (startLive host atks)"
  by (simp add: quiet_def startLive_def)

lemma start_trk: "trk (startLive host atks) = startTracker host atks"
  by (simp add: startLive_def)

lemma serial_from_start:
  "trk (runEvents (serial cs) (startLive host atks)) = runUI cs (startTracker host atks)"
  using serial_runUI [OF start_quiet [of host atks], of cs] by (simp add: start_trk)

section \<open>Runs through the controls\<close>

lemma dispatch_cases: "dispatch c s = handler c s \<or> dispatch c s = s"
  by (simp add: dispatch_def)

lemma runUI_append: "runUI (cs @ cs') s = runUI cs' (runUI cs s)"
  by (simp add: runUI_def)

lemma runUI_indexInv:
  assumes "indexInv s"
  shows "indexInv (runUI cs s)"
proof (induction cs rule: rev_induct)
  case Nil
  from assms show ?case by (simp add: runUI_def)
next
  case (snoc c cs)
  with dispatch_cases [of c "runUI cs s"] handler_indexInv [of "runUI cs s" c]
  show ?case by (auto simp: runUI_snoc)
qed

lemma runUI_mono: "currentIndex s \<le> currentIndex (runUI cs s)"
proof (induction cs rule: rev_induct)
  case Nil
  show ?case by (simp add: runUI_def)
next
  case (snoc c cs)
  with dispatch_cases [of c "runUI cs s"] handler_mono [of "runUI cs s" c]
  show ?case by (auto simp: runUI_snoc)
qed

lemma runUI_commitInv:
  assumes "indexInv s" and "commitInv s" and "earlyThrows cs"
  shows "commitInv (runUI cs s)"
  using assms(3)
proof (induction cs rule: rev_induct)
  case Nil
  from assms(2) show ?case by (simp add: runUI_def)
next
  case (snoc c cs)
  then have e: "earlyThrows cs" and b: "case c of Advance e \<Rightarrow> beforeCommit (throwAt e) | _ \<Rightarrow> True"
    by (simp_all add: earlyThrows_def)
  from snoc.IH [OF e] runUI_indexInv [OF assms(1), of cs] b
  have "commitInv (handler c (runUI cs s))" by (simp add: handler_commitInv)
  with snoc.IH [OF e] dispatch_cases [of c "runUI cs s"] show ?case
    by (auto simp: runUI_snoc)
qed

lemma runUI_covers:
  assumes "0 \<le> ammo_cost (act s)" and "\<forall>aid. covers s aid" and "earlyThrows cs"
  shows "act (runUI cs s) = act s \<and> (\<forall>aid. covers (runUI cs s) aid)"
  using assms(3)
proof (induction cs rule: rev_induct)
  case Nil
  from assms(2) show ?case by (simp add: runUI_def)
next
  case (snoc c cs)
  then have e: "earlyThrows cs" and b: "case c of Advance e \<Rightarrow> beforeCommit (throwAt e) | _ \<Rightarrow> True"
    by (simp_all add: earlyThrows_def)
  from snoc.IH [OF e] have a: "act (runUI cs s) = act s"
    and c: "\<forall>aid. covers (runUI cs s) aid" by simp_all
  from a assms(1) have nn: "0 \<le> ammo_cost (act (runUI cs s))" by simp
  have "\<forall>aid. covers (handler c (runUI cs s)) aid"
    using handler_covers [OF nn c b] by simp
  with a c dispatch_cases [of c "runUI cs s"] show ?case
    by (auto simp: runUI_snoc handler_act)
qed

section \<open>Clicks while a call is in flight\<close>

lemma resolveTail_control:
  "(resolveTail e i s = Inl s' \<longrightarrow> sameControl s s') \<and>
   (resolveTail e i s = Inr s' \<longrightarrow>
      (\<exists>s3. sameControl s s3 \<and> s' = markResolved i (shared_attacks s) s3))"
proof -
  let ?s2 = "isolateAttack i s"
  have c2: "sameControl s ?s2" by (rule isolate_control)
  have c3: "sameControl s (stateOf (commitAndPost e i (allAttacks s ! i) ?s2))"
    using c2 commitAndPost_control by (rule sameControl_trans)
  show ?thesis
    using c2 c3 sameControl_refl [of s]
    by (auto simp: resolveTail_def Let_def split: if_splits sum.splits)
qed

lemma gate_other_fields:
  "gateInv (s\<lparr>shared_rollData := rd\<rparr>) = gateInv s"
  "gateInv (s\<lparr>notifications := n\<rparr>) = gateInv s"
  by (simp_all add: gateInv_def)

lemma beginCall_gate:
  assumes "gateInv (trk a)"
  shows "gateInv (trk (beginCall e a))"
  using assms gateInv_cong [OF stepContext_control, of e "trk a"]
  by (simp add: beginCall_def Let_def gate_other_fields)

lemma endCall_gate:
  assumes "gateInv (trk a)"
  shows "gateInv (trk (endCall c a))"
proof -
  let ?s0 = "(trk a)\<lparr>shared_rollData := call_rollData c\<rparr>"
  have g0: "gateInv ?s0" using assms by (simp add: gate_other_fields)
  show ?thesis
  proof (cases "resolveTail (call_env c) (call_idx c) ?s0")
    case (Inl s')
    with resolveTail_control [of "call_env c" "call_idx c" ?s0 s'] have "sameControl ?s0 s'"
      by simp
    with g0 have "gateInv s'" by (simp add: gateInv_cong)
    with Inl show ?thesis by (simp add: endCall_def Let_def gate_other_fields)
  next
    case (Inr s')
    with resolveTail_control [of "call_env c" "call_idx c" ?s0 s'] obtain s3 where
      c: "sameControl ?s0 s3" and s': "s' = markResolved (call_idx c) (shared_attacks ?s0) s3"
      by auto
    from c g0 have "gateInv s3" by (simp add: gateInv_cong)
    then have "gateInv s'" unfolding s' by (rule markResolved_gate)
    with Inr show ?thesis by (simp add: endCall_def rerender_def Let_def gate_other_fields)
  qed
qed

lemma liveStep_gate:
  assumes "gateInv (trk a)"
  shows "gateInv (trk (liveStep ev a))"
proof (cases ev)
  case (ClickNext e)
  with assms beginCall_gate [OF assms, of e] show ?thesis by (simp add: liveStep_def)
next
  case (Resume k)
  have "gateInv (trk (a\<lparr>inFlight := take k (inFlight a) @ drop (Suc k) (inFlight a)\<rparr>))"
    using assms by simp
  from endCall_gate [OF this, of "inFlight a ! k"] assms Resume show ?thesis
    by (simp add: liveStep_def)
next
  case ClickSkip
  with assms skip_gate [OF assms] show ?thesis by (simp add: liveStep_def rerender_def)
qed (use assms in \<open>simp_all add: liveStep_def dispatch_gate\<close>)

lemma runEvents_snoc: "runEvents (evs @ [ev]) a = liveStep ev (runEvents evs a)"
  by (simp add: runEvents_def)

lemma runEvents_gate:
  assumes "gateInv (trk a)"
  shows "gateInv (trk (runEvents evs a))"
  using assms
  by (induction evs rule: rev_induct) (simp_all add: runEvents_snoc liveStep_gate runEvents_def)

text \<open>
  Claim C8. Take any course of events from the start of the tracker: clicks, calls that
  go on after their wait in any order, the closing of the window, the timer. Once the
  tracker is completed or cancelled, no Next and no Skip button is on the screen, and a
  click on Next or on Skip leaves the whole state as it is: the resolved and skipped
  sets, the current index and the ledger with it. The buttons are the only way to the
  two methods (lines 348--366), and the body of a completed tracker has none
  (lines 330--340); the window of a cancelled tracker is closed.
\<close>

theorem terminal_tracker_takes_no_step:
  assumes "phaseOf (trk (runEvents evs (startLive host atks))) \<noteq> Running"
  shows "NextBtn \<notin> set (rendered (trk (runEvents evs (startLive host atks)))) \<and>
         SkipBtn \<notin> set (rendered (trk (runEvents evs (startLive host atks)))) \<and>
         liveStep (ClickNext e) (runEvents evs (startLive host atks)) =
           runEvents evs (startLive host atks) \<and>
         liveStep ClickSkip (runEvents evs (startLive host atks)) =
           runEvents evs (startLive host atks) \<and>
         runEvents (evs @ [ClickNext e, ClickSkip]) (startLive host atks) =
           runEvents evs (startLive host atks)"
proof -
  let ?a = "runEvents evs (startLive host atks)"
  have "gateInv (trk (startLive host atks))" by (simp add: start_trk start_gate)
  then have g: "gateInv (trk ?a)" by (rule runEvents_gate)
  from assms have "completed (trk ?a) \<or> promise (trk ?a) \<noteq> None"
    by (auto simp: phaseOf_def split: if_splits)
  with g have n: "NextBtn \<notin> set (rendered (trk ?a)) \<and> SkipBtn \<notin> set (rendered (trk ?a))"
    by (auto simp: gateInv_def)
  then have d: "liveStep (ClickNext e) ?a = ?a \<and> liveStep ClickSkip ?a = ?a"
    by (simp add: liveStep_def available_def)
  then have "runEvents (evs @ [ClickNext e, ClickSkip]) (startLive host atks) = ?a"
    by (simp add: runEvents_def)
  with n d show ?thesis by simp
qed

text \<open>
  A click on Next, then both attacks skipped while the call waits: the tracker is
  completed, only the Done button is left, and a click on Next or Skip changes nothing.
\<close>

theorem completed_tracker_ignores_clicks:
  "phaseOf (trk (runEvents [ClickNext (exEnv 8 (Some 8) Never), ClickSkip, ClickSkip]
      (startLive exHost [exAttack ''A'' True, exAttack ''B'' True]))) \<noteq> Running \<and>
   phaseOf (trk (runEvents [ClickNext (exEnv 8 (Some 8) Never), ClickSkip, ClickSkip]
      (startLive exHost [exAttack ''A'' True, exAttack ''B'' True]))) = Completed \<and>
   rendered (trk (runEvents [ClickNext (exEnv 8 (Some 8) Never), ClickSkip, ClickSkip]
      (startLive exHost [exAttack ''A'' True, exAttack ''B'' True]))) = [CloseBtn] \<and>
   length (inFlight (runEvents [ClickNext (exEnv 8 (Some 8) Never), ClickSkip, ClickSkip]
      (startLive exHost [exAttack ''A'' True, exAttack ''B'' True]))) = 1 \<and>
   liveStep (ClickNext (exEnv 8 (Some 8) Never))
     (runEvents [ClickNext (exEnv 8 (Some 8) Never), ClickSkip, ClickSkip]
        (startLive exHost [exAttack ''A'' True, exAttack ''B'' True])) =
     runEvents [ClickNext (exEnv 8 (Some 8) Never), ClickSkip, ClickSkip]
        (startLive exHost [exAttack ''A'' True, exAttack ''B'' True]) \<and>
   liveStep ClickSkip
     (runEvents [ClickNext (exEnv 8 (Some 8) Never), ClickSkip, ClickSkip]
        (startLive exHost [exAttack ''A'' True, exAttack ''B'' True])) =
     runEvents [ClickNext (exEnv 8 (Some 8) Never), ClickSkip, ClickSkip]
        (startLive exHost [exAttack ''A'' True, exAttack ''B'' True])"
proof -
  let ?a = "runEvents [ClickNext (exEnv 8 (Some 8) Never), ClickSkip, ClickSkip]
      (startLive exHost [exAttack ''A'' True, exAttack ''B'' True])"
  have p: "phaseOf (trk ?a) = Completed"
    by (simp add: live_defs run_defs phaseOf_def)
  have r: "rendered (trk ?a) = [CloseBtn]"
    by (simp add: live_defs run_defs)
  have l: "length (inFlight ?a) = 1"
    by (simp add: live_defs run_defs)
  from p have "phaseOf (trk ?a) \<noteq> Running" by simp
  from this p r l terminal_tracker_takes_no_step [OF this, of "exEnv 8 (Some 8) Never"]
  show ?thesis by simp
qed

text \<open>
  Two calls can hold the same index. Next is clicked and the call waits; Skip is clicked
  and the body is rendered with a fresh Next button; Next is clicked again and the second
  call reads index 1; the first call goes on and the body is rendered once more; a third
  click on Next reads index 1 as well. Both calls write off an arrow for step 1: with two
  arrows and two planned attacks the balance ends at -1, and no call has thrown.
\<close>

lemma overlapping_calls_write_twice:
  "commits (trk (runEvents
      [ClickNext (exEnv 8 (Some 8) Never), ClickSkip, ClickNext (exEnv 8 (Some 8) Never),
       Resume 0, ClickNext (exEnv 8 (Some 8) Never), Resume 0, Resume 0]
      (startLive exHost [exAttack ''A'' True, exAttack ''B'' True]))) =
     [(0, Ammo), (1, Ammo), (1, Ammo)] \<and>
   map card_idx (cards (trk (runEvents
      [ClickNext (exEnv 8 (Some 8) Never), ClickSkip, ClickNext (exEnv 8 (Some 8) Never),
       Resume 0, ClickNext (exEnv 8 (Some 8) Never), Resume 0, Resume 0]
      (startLive exHost [exAttack ''A'' True, exAttack ''B'' True])))) = [0, 1, 1] \<and>
   map_option balance (items (trk (runEvents
      [ClickNext (exEnv 8 (Some 8) Never), ClickSkip, ClickNext (exEnv 8 (Some 8) Never),
       Resume 0, ClickNext (exEnv 8 (Some 8) Never), Resume 0, Resume 0]
      (startLive exHost [exAttack ''A'' True, exAttack ''B'' True]))) ''arrows'') = Some (- 1) \<and>
   notifications (trk (runEvents
      [ClickNext (exEnv 8 (Some 8) Never), ClickSkip, ClickNext (exEnv 8 (Some 8) Never),
       Resume 0, ClickNext (exEnv 8 (Some 8) Never), Resume 0, Resume 0]
      (startLive exHost [exAttack ''A'' True, exAttack ''B'' True]))) = []"
  by (simp add: live_defs run_defs)

text \<open>
  Claim C3. The claim does not hold of the code when Skip is clicked while a call of
  Advance waits. The Next listener disables the Next button it was clicked on
  (lines 350--351) and leaves the Skip button live. Two planned attacks; Next is clicked
  and the call reads index 0 (line 387) and waits. A click on Skip puts index 0 into the
  skipped set; when the call goes on it puts index 0 into the resolved set as well
  (line 589). With two clicks on Skip the current index is 2, and the call then sets it
  back to 1 (line 590).
\<close>

theorem skip_during_advance_breaks_bookkeeping:
  "length (inFlight (runEvents [ClickNext (exEnv 8 (Some 8) Never)]
      (startLive exHost [exAttack ''A'' True, exAttack ''B'' True]))) = 1 \<and>
   rendered (trk (runEvents [ClickNext (exEnv 8 (Some 8) Never)]
      (startLive exHost [exAttack ''A'' True, exAttack ''B'' True]))) =
     [NextBtn, SkipBtn, CancelBtn] \<and>
   resolvedIndices (trk (runEvents [ClickNext (exEnv 8 (Some 8) Never), ClickSkip, Resume 0]
      (startLive exHost [exAttack ''A'' True, exAttack ''B'' True]))) = {0} \<and>
   skippedIndices (trk (runEvents [ClickNext (exEnv 8 (Some 8) Never), ClickSkip, Resume 0]
      (startLive exHost [exAttack ''A'' True, exAttack ''B'' True]))) = {0} \<and>
   currentIndex (trk (runEvents [ClickNext (exEnv 8 (Some 8) Never), ClickSkip, ClickSkip]
      (startLive exHost [exAttack ''A'' True, exAttack ''B'' True]))) = 2 \<and>
   currentIndex (trk (runEvents
      [ClickNext (exEnv 8 (Some 8) Never), ClickSkip, ClickSkip, Resume 0]
      (startLive exHost [exAttack ''A'' True, exAttack ''B'' True]))) = 1 \<and>
   skippedIndices (trk (runEvents
      [ClickNext (exEnv 8 (Some 8) Never), ClickSkip, ClickSkip, Resume 0]
      (startLive exHost [exAttack ''A'' True, exAttack ''B'' True]))) = {0, 1}"
  by (simp add: live_defs run_defs insert_commute)

section \<open>The ledger against the log\<close>

lemma chargesLogged_append:
  "chargesLogged atks (ws @ ws') = chargesLogged atks ws + chargesLogged atks ws'"
  by (simp add: chargesLogged_def)

lemma ammoLogged_append:
  "ammoLogged atks aid (ws @ ws') = ammoLogged atks aid ws + ammoLogged atks aid ws'"
  by (simp add: ammoLogged_def)

lemma chargesLogged_step:
  "chargesLogged atks (stepWrites s i (atks ! i)) =
     (if chargeWritten (atks ! i) then costOf (atks ! i) else 0)"
  by (simp add: chargesLogged_def stepWrites_def)

lemma ammoLogged_step:
  "ammoLogged atks aid (stepWrites s i (atks ! i)) =
     (if ammoWritten s (atks ! i) \<and> ammo (atks ! i) = Some aid then 1 else 0)"
  by (simp add: ammoLogged_def stepWrites_def)

lemma chargesAfter_cost:
  "chargesAfter s atk = item_charges s - (if chargeWritten atk then costOf atk else 0)"
  by (simp add: chargesAfter_def chargeWritten_def costOf_def split: chargeCostVal.splits)

lemma itemsAfter_written:
  assumes "ammoWritten s atk" and "ammo atk = Some aid"
  shows "\<exists>it. items s aid = Some it \<and>
           itemsAfter s atk aid = Some (it\<lparr>quantity := Some (balance it - ammo_cost (act s))\<rparr>)"
  using assms by (auto simp: ammoWritten_def itemsAfter_def split: option.splits)

lemma pinned_same:
  assumes "sameWorld s t" and "allAttacks t = allAttacks s"
  shows "chargesPinned host t = chargesPinned host s"
    and "itemPinned host t aid = itemPinned host s aid"
  using assms by (simp_all add: chargesPinned_def itemPinned_def sameWorld_def)

lemma advance_pinned:
  assumes b: "beforeCommit (throwAt e)" and a: "act s = act host"
    and c: "chargesPinned host s" and i: "itemPinned host s aid"
  shows "chargesPinned host (handler (Advance e) s) \<and> itemPinned host (handler (Advance e) s) aid"
proof -
  let ?h = "handler (Advance e) s"
  let ?atk = "allAttacks s ! currentIndex s"
  note st = advance_static(1,2) [OF b, of s]
  from b show ?thesis
  proof (cases rule: advance_cases [where s = s])
    case same
    from pinned_same [OF same(1) st(2)] c i show ?thesis by simp
  next
    case veto
    from pinned_same [OF veto(4) st(2)] c i show ?thesis by simp
  next
    case wrote
    have ch: "chargesPinned host ?h"
      using c wrote(7,8) st(2)
      by (simp add: chargesPinned_def chargesLogged_append chargesLogged_step chargesAfter_cost)
    have it: "itemPinned host ?h aid"
    proof (cases "ammoWritten s ?atk \<and> ammo ?atk = Some aid")
      case False
      then have "items ?h aid = items s aid" using wrote(6) by (simp add: itemsAfter_other)
      moreover have "ammoLogged (allAttacks ?h) aid (commits ?h) =
          ammoLogged (allAttacks s) aid (commits s)"
        using False wrote(8) st(2) by (simp add: ammoLogged_append ammoLogged_step)
      ultimately show ?thesis using i by (simp add: itemPinned_def)
    next
      case True
      with itemsAfter_written [of s ?atk aid] obtain it0 where
        it0: "items s aid = Some it0"
          "itemsAfter s ?atk aid = Some (it0\<lparr>quantity := Some (balance it0 - ammo_cost (act s))\<rparr>)"
        by auto
      have n: "ammoLogged (allAttacks ?h) aid (commits ?h) =
          Suc (ammoLogged (allAttacks s) aid (commits s))"
        using True wrote(8) st(2) by (simp add: ammoLogged_append ammoLogged_step)
      from i it0(1) obtain ith where
        h: "items host aid = Some ith" "abundant it0 = abundant ith"
          "balance it0 = balance ith -
             ammo_cost (act host) * int (ammoLogged (allAttacks s) aid (commits s))"
        by (cases "items host aid") (auto simp: itemPinned_def)
      have "items ?h aid = Some (it0\<lparr>quantity := Some (balance it0 - ammo_cost (act s))\<rparr>)"
        using wrote(6) it0(2) by simp
      then show ?thesis
        using h a n by (simp add: itemPinned_def balance_def algebra_simps)
    qed
    from ch it show ?thesis by simp
  qed
qed

lemma handler_pinned:
  assumes b: "case c of Advance e \<Rightarrow> beforeCommit (throwAt e) | _ \<Rightarrow> True"
    and a: "act s = act host" and ch: "chargesPinned host s" and i: "itemPinned host s aid"
  shows "chargesPinned host (handler c s) \<and> itemPinned host (handler c s) aid"
proof (cases c)
  case (Advance e)
  with b have "beforeCommit (throwAt e)" by simp
  from advance_pinned [OF this a ch i] Advance show ?thesis by simp
qed (use other_effect [of c s] pinned_same [of s "handler c s"] ch i in auto)

lemma runUI_pinned:
  assumes "earlyThrows cs" and "act s = act host" and "chargesPinned host s"
    and "\<forall>aid. itemPinned host s aid"
  shows "act (runUI cs s) = act host \<and> chargesPinned host (runUI cs s) \<and>
         (\<forall>aid. itemPinned host (runUI cs s) aid)"
  using assms(1)
proof (induction cs rule: rev_induct)
  case Nil
  from assms(2,3,4) show ?case by (simp add: runUI_def)
next
  case (snoc c cs)
  then have e: "earlyThrows cs" and b: "case c of Advance e \<Rightarrow> beforeCommit (throwAt e) | _ \<Rightarrow> True"
    by (simp_all add: earlyThrows_def)
  let ?s = "runUI cs s"
  from snoc.IH [OF e] have a: "act ?s = act host" and ch: "chargesPinned host ?s"
    and i: "\<forall>aid. itemPinned host ?s aid" by simp_all
  have "chargesPinned host (handler c ?s) \<and> (\<forall>aid. itemPinned host (handler c ?s) aid)"
    using handler_pinned [OF b a ch] i by blast
  with a ch i dispatch_cases [of c ?s] show ?case
    by (auto simp: runUI_snoc handler_act)
qed

lemma start_pinned:
  assumes "commits host = []"
  shows "act (startTracker host atks) = act host" and "chargesPinned host (startTracker host atks)"
    and "itemPinned host (startTracker host atks) aid"
  using assms
  by (simp_all add: startTracker_def chargesPinned_def itemPinned_def chargesLogged_def
        ammoLogged_def option.map_ident)


section \<open>Commands taken one at a time: the index, the writes, the balance\<close>

text \<open>
  With the commands taken one at a time the index state keeps its shape: the current
  index never goes back, no index is both resolved and skipped, and the two sets together
  are the indices below the current one.
\<close>

lemma index_bookkeeping_one_at_a_time:
  "currentIndex (trk (runEvents (serial cs) (startLive host atks)))
     \<le> currentIndex (trk (runEvents (serial (cs @ cs')) (startLive host atks))) \<and>
   resolvedIndices (trk (runEvents (serial cs) (startLive host atks))) \<inter>
     skippedIndices (trk (runEvents (serial cs) (startLive host atks))) = {} \<and>
   resolvedIndices (trk (runEvents (serial cs) (startLive host atks))) \<union>
     skippedIndices (trk (runEvents (serial cs) (startLive host atks))) =
     {0..<currentIndex (trk (runEvents (serial cs) (startLive host atks)))}"
  using runUI_indexInv [OF start_indexInv [of host atks], of cs]
        runUI_mono [of "runUI cs (startTracker host atks)" cs']
  by (simp add: indexInv_def runUI_append serial_from_start)

lemma skip_click_writes_nothing:
  "sameWorld (trk a) (trk (liveStep ClickSkip a)) \<and>
   notifications (trk (liveStep ClickSkip a)) = notifications (trk a)"
  by (simp add: liveStep_def rerender_def sameWorld_def skipCurrentAttack_def updateDialog_def
        Let_def)

text \<open>
  Claim C7, amended. A click on Skip writes nothing to the actor, the item or the action
  and posts no card, whatever is in flight. Take the commands one at a time (no click
  while a call of Advance waits), from the start with an empty log, and let no call of
  Advance throw after its writes have begun. Then no write and no card is repeated, every
  write and every card belongs to a resolved step and never to a skipped one, and the
  ledger is pinned by the log: the charges of the item are those of the start less the
  logged ones, and every ammunition item has the balance of the start less the cost of
  each logged write. A call of Advance that does not throw resolves its step; unless it is
  vetoed (the hook returns false or a script call rejects) it makes the writes of the step
  once, to the items and to the charges, and posts one card, and a vetoed call resolves
  the step without a write and without a card.
\<close>

theorem commits_once_per_resolved_step:
  assumes "earlyThrows cs" and "commits host = []" and "cards host = []"
  shows "sameWorld (trk a0) (trk (liveStep ClickSkip a0)) \<and>
         notifications (trk (liveStep ClickSkip a0)) = notifications (trk a0) \<and>
         distinct (commits (trk (runEvents (serial cs) (startLive host atks)))) \<and>
         distinct (map card_idx (cards (trk (runEvents (serial cs) (startLive host atks))))) \<and>
         (\<forall>w \<in> set (commits (trk (runEvents (serial cs) (startLive host atks)))).
            fst w \<in> resolvedIndices (trk (runEvents (serial cs) (startLive host atks))) \<and>
            fst w \<notin> skippedIndices (trk (runEvents (serial cs) (startLive host atks)))) \<and>
         (\<forall>c \<in> set (cards (trk (runEvents (serial cs) (startLive host atks)))).
            card_idx c \<in> resolvedIndices (trk (runEvents (serial cs) (startLive host atks))) \<and>
            card_idx c \<notin> skippedIndices (trk (runEvents (serial cs) (startLive host atks)))) \<and>
         chargesPinned host (trk (runEvents (serial cs) (startLive host atks))) \<and>
         (\<forall>aid. itemPinned host (trk (runEvents (serial cs) (startLive host atks))) aid) \<and>
         (quiet a1 \<and> available (trk a1) (Advance e) \<and> throwAt e = Never \<and>
          currentIndex (trk a1) < length (allAttacks (trk a1)) \<and>
          \<not> missingAmmo (allAttacks (trk a1) ! currentIndex (trk a1)) \<longrightarrow>
            currentIndex (trk a1) \<in> resolvedIndices (trk (runEvents (serial [Advance e]) a1)) \<and>
            (if hookResult e \<and> \<not> scriptReject e then
               commits (trk (runEvents (serial [Advance e]) a1)) =
                 commits (trk a1) @
                   stepWrites (trk a1) (currentIndex (trk a1))
                     (allAttacks (trk a1) ! currentIndex (trk a1)) \<and>
               map card_idx (cards (trk (runEvents (serial [Advance e]) a1))) =
                 map card_idx (cards (trk a1)) @ [currentIndex (trk a1)] \<and>
               items (trk (runEvents (serial [Advance e]) a1)) =
                 itemsAfter (trk a1) (allAttacks (trk a1) ! currentIndex (trk a1)) \<and>
               item_charges (trk (runEvents (serial [Advance e]) a1)) =
                 chargesAfter (trk a1) (allAttacks (trk a1) ! currentIndex (trk a1))
             else sameWorld (trk a1) (trk (runEvents (serial [Advance e]) a1))))"
proof -
  let ?st0 = "startTracker host atks"
  let ?s = "trk (runEvents (serial cs) (startLive host atks))"
  have run: "?s = runUI cs ?st0" by (rule serial_from_start)
  have skip: "sameWorld (trk a0) (trk (liveStep ClickSkip a0)) \<and>
         notifications (trk (liveStep ClickSkip a0)) = notifications (trk a0)"
    by (rule skip_click_writes_nothing)
  have i0: "indexInv ?st0" by (rule start_indexInv)
  have c0: "commitInv ?st0"
    using assms(2,3) by (simp add: commitInv_def startTracker_def)
  have inv: "commitInv ?s" unfolding run using i0 c0 assms(1) by (rule runUI_commitInv)
  have ix: "indexInv ?s" unfolding run using i0 by (rule runUI_indexInv)
  then have disj: "resolvedIndices ?s \<inter> skippedIndices ?s = {}" by (simp add: indexInv_def)
  from inv have d: "distinct (commits ?s)" "distinct (map card_idx (cards ?s))"
    and r: "\<forall>w \<in> set (commits ?s). fst w \<in> resolvedIndices ?s"
    and rc: "\<forall>i \<in> set (map card_idx (cards ?s)). i \<in> resolvedIndices ?s"
    by (simp_all add: commitInv_alt)
  have w: "\<forall>w \<in> set (commits ?s). fst w \<in> resolvedIndices ?s \<and> fst w \<notin> skippedIndices ?s"
    using r disj by auto
  have c: "\<forall>c \<in> set (cards ?s). card_idx c \<in> resolvedIndices ?s \<and> card_idx c \<notin> skippedIndices ?s"
    using rc disj by auto
  have "act (runUI cs ?st0) = act host \<and> chargesPinned host (runUI cs ?st0) \<and>
         (\<forall>aid. itemPinned host (runUI cs ?st0) aid)"
    using assms(1) start_pinned [OF assms(2), of atks] by (intro runUI_pinned) simp_all
  then have pin: "chargesPinned host ?s" "\<forall>aid. itemPinned host ?s aid"
    unfolding run by simp_all
  have one: "quiet a1 \<and> available (trk a1) (Advance e) \<and> throwAt e = Never \<and>
          currentIndex (trk a1) < length (allAttacks (trk a1)) \<and>
          \<not> missingAmmo (allAttacks (trk a1) ! currentIndex (trk a1)) \<longrightarrow>
            currentIndex (trk a1) \<in> resolvedIndices (trk (runEvents (serial [Advance e]) a1)) \<and>
            (if hookResult e \<and> \<not> scriptReject e then
               commits (trk (runEvents (serial [Advance e]) a1)) =
                 commits (trk a1) @
                   stepWrites (trk a1) (currentIndex (trk a1))
                     (allAttacks (trk a1) ! currentIndex (trk a1)) \<and>
               map card_idx (cards (trk (runEvents (serial [Advance e]) a1))) =
                 map card_idx (cards (trk a1)) @ [currentIndex (trk a1)] \<and>
               items (trk (runEvents (serial [Advance e]) a1)) =
                 itemsAfter (trk a1) (allAttacks (trk a1) ! currentIndex (trk a1)) \<and>
               item_charges (trk (runEvents (serial [Advance e]) a1)) =
                 chargesAfter (trk a1) (allAttacks (trk a1) ! currentIndex (trk a1))
             else sameWorld (trk a1) (trk (runEvents (serial [Advance e]) a1)))"
  proof (intro impI)
    assume h: "quiet a1 \<and> available (trk a1) (Advance e) \<and> throwAt e = Never \<and>
          currentIndex (trk a1) < length (allAttacks (trk a1)) \<and>
          \<not> missingAmmo (allAttacks (trk a1) ! currentIndex (trk a1))"
    then have q: "quiet a1" by simp
    from serial_runUI [OF q, of "[Advance e]"] h
    have "trk (runEvents (serial [Advance e]) a1) = handler (Advance e) (trk a1)"
      by (simp add: runUI_def dispatch_def)
    with advance_returns_effect [of e "trk a1"] h
    show "currentIndex (trk a1) \<in> resolvedIndices (trk (runEvents (serial [Advance e]) a1)) \<and>
            (if hookResult e \<and> \<not> scriptReject e then
               commits (trk (runEvents (serial [Advance e]) a1)) =
                 commits (trk a1) @
                   stepWrites (trk a1) (currentIndex (trk a1))
                     (allAttacks (trk a1) ! currentIndex (trk a1)) \<and>
               map card_idx (cards (trk (runEvents (serial [Advance e]) a1))) =
                 map card_idx (cards (trk a1)) @ [currentIndex (trk a1)] \<and>
               items (trk (runEvents (serial [Advance e]) a1)) =
                 itemsAfter (trk a1) (allAttacks (trk a1) ! currentIndex (trk a1)) \<and>
               item_charges (trk (runEvents (serial [Advance e]) a1)) =
                 chargesAfter (trk a1) (allAttacks (trk a1) ! currentIndex (trk a1))
             else sameWorld (trk a1) (trk (runEvents (serial [Advance e]) a1)))"
      by simp
  qed
  from skip d w c pin one show ?thesis by blast
qed

text \<open>
  The first of two attacks is resolved and the second skipped: one arrow is written off
  for step 0, one card is posted, nothing for step 1, and the balance is one arrow less
  than at the start.
\<close>

theorem commits_once_in_a_clean_run:
  "earlyThrows [Advance (exEnv 8 (Some 8) Never), Skip] \<and>
   commits exHost = [] \<and> cards exHost = [] \<and>
   serial [Advance (exEnv 8 (Some 8) Never), Skip] =
     [ClickNext (exEnv 8 (Some 8) Never), Resume 0, ClickSkip] \<and>
   distinct (commits (trk (runEvents (serial [Advance (exEnv 8 (Some 8) Never), Skip])
      (startLive exHost [exAttack ''A'' True, exAttack ''B'' True])))) \<and>
   commits (trk (runEvents (serial [Advance (exEnv 8 (Some 8) Never), Skip])
      (startLive exHost [exAttack ''A'' True, exAttack ''B'' True]))) = [(0, Ammo)] \<and>
   map card_idx (cards (trk (runEvents (serial [Advance (exEnv 8 (Some 8) Never), Skip])
      (startLive exHost [exAttack ''A'' True, exAttack ''B'' True])))) = [0] \<and>
   resolvedIndices (trk (runEvents (serial [Advance (exEnv 8 (Some 8) Never), Skip])
      (startLive exHost [exAttack ''A'' True, exAttack ''B'' True]))) = {0} \<and>
   skippedIndices (trk (runEvents (serial [Advance (exEnv 8 (Some 8) Never), Skip])
      (startLive exHost [exAttack ''A'' True, exAttack ''B'' True]))) = {1} \<and>
   map_option balance (items (trk (runEvents (serial [Advance (exEnv 8 (Some 8) Never), Skip])
      (startLive exHost [exAttack ''A'' True, exAttack ''B'' True]))) ''arrows'') = Some 1 \<and>
   item_charges (trk (runEvents (serial [Advance (exEnv 8 (Some 8) Never), Skip])
      (startLive exHost [exAttack ''A'' True, exAttack ''B'' True]))) = 2 \<and>
   ammoLogged [exAttack ''A'' True, exAttack ''B'' True] ''arrows''
     (commits (trk (runEvents (serial [Advance (exEnv 8 (Some 8) Never), Skip])
        (startLive exHost [exAttack ''A'' True, exAttack ''B'' True])))) = 1 \<and>
   chargesPinned exHost (trk (runEvents (serial [Advance (exEnv 8 (Some 8) Never), Skip])
      (startLive exHost [exAttack ''A'' True, exAttack ''B'' True]))) \<and>
   itemPinned exHost (trk (runEvents (serial [Advance (exEnv 8 (Some 8) Never), Skip])
      (startLive exHost [exAttack ''A'' True, exAttack ''B'' True]))) ''arrows'' \<and>
   quiet (startLive exHost [exAttack ''A'' True, exAttack ''B'' True]) \<and>
   available (trk (startLive exHost [exAttack ''A'' True, exAttack ''B'' True]))
     (Advance (exEnv 8 (Some 8) Never)) \<and>
   throwAt (exEnv 8 (Some 8) Never) = Never \<and>
   currentIndex (trk (startLive exHost [exAttack ''A'' True, exAttack ''B'' True])) <
     length (allAttacks (trk (startLive exHost [exAttack ''A'' True, exAttack ''B'' True]))) \<and>
   \<not> missingAmmo (allAttacks (trk (startLive exHost [exAttack ''A'' True, exAttack ''B'' True])) !
     currentIndex (trk (startLive exHost [exAttack ''A'' True, exAttack ''B'' True]))) \<and>
   hookResult (exEnv 8 (Some 8) Never) \<and> \<not> scriptReject (exEnv 8 (Some 8) Never) \<and>
   stepWrites (trk (startLive exHost [exAttack ''A'' True, exAttack ''B'' True])) 0
     (exAttack ''A'' True) = [(0, Ammo)] \<and>
   commits (trk (runEvents (serial [Advance (exEnv 8 (Some 8) Never)])
      (startLive exHost [exAttack ''A'' True, exAttack ''B'' True]))) = [(0, Ammo)] \<and>
   map_option balance (items (trk (runEvents (serial [Advance (exEnv 8 (Some 8) Never)])
      (startLive exHost [exAttack ''A'' True, exAttack ''B'' True]))) ''arrows'') = Some 1"
proof -
  let ?cs = "[Advance (exEnv 8 (Some 8) Never), Skip]"
  let ?atks = "[exAttack ''A'' True, exAttack ''B'' True]"
  let ?t = "trk (runEvents (serial ?cs) (startLive exHost ?atks))"
  have h: "earlyThrows ?cs" "commits exHost = []" "cards exHost = []"
    by (simp_all add: earlyThrows_def beforeCommit_def exEnv_def exHost_def)
  have s: "serial ?cs = [ClickNext (exEnv 8 (Some 8) Never), Resume 0, ClickSkip]"
    by (simp add: serial_def)
  have v: "commits ?t = [(0, Ammo)]" "map card_idx (cards ?t) = [0]"
    "resolvedIndices ?t = {0}" "skippedIndices ?t = {1}"
    "map_option balance (items ?t ''arrows'') = Some 1" "item_charges ?t = 2"
    by (simp_all add: live_defs run_defs)
  from v(1) have l: "ammoLogged ?atks ''arrows'' (commits ?t) = 1"
    by (simp add: ammoLogged_def exAttack_def)
  note t = commits_once_per_resolved_step [OF h, of "startLive exHost ?atks" ?atks
      "startLive exHost ?atks" "exEnv 8 (Some 8) Never"]
  from t have d: "distinct (commits ?t)" by (elim conjE)
  from t have c: "chargesPinned exHost ?t" by (elim conjE)
  from t have "\<forall>aid. itemPinned exHost ?t aid" by (elim conjE)
  then have i: "itemPinned exHost ?t ''arrows''" by (rule spec)
  have p: "quiet (startLive exHost ?atks)"
    "available (trk (startLive exHost ?atks)) (Advance (exEnv 8 (Some 8) Never))"
    "throwAt (exEnv 8 (Some 8) Never) = Never"
    "currentIndex (trk (startLive exHost ?atks)) < length (allAttacks (trk (startLive exHost ?atks)))"
    "\<not> missingAmmo (allAttacks (trk (startLive exHost ?atks)) !
       currentIndex (trk (startLive exHost ?atks)))"
    "hookResult (exEnv 8 (Some 8) Never)" "\<not> scriptReject (exEnv 8 (Some 8) Never)"
    by (simp_all add: quiet_def available_def startLive_def startTracker_def missingAmmo_def
          exEnv_def exAttack_def)
  have w: "stepWrites (trk (startLive exHost ?atks)) 0 (exAttack ''A'' True) = [(0, Ammo)]"
    by (simp add: stepWrites_def ammoWritten_def chargeWritten_def startLive_def
          startTracker_def exHost_def exAction_def exAttack_def)
  have o: "commits (trk (runEvents (serial [Advance (exEnv 8 (Some 8) Never)])
        (startLive exHost ?atks))) = [(0, Ammo)]"
    "map_option balance (items (trk (runEvents (serial [Advance (exEnv 8 (Some 8) Never)])
        (startLive exHost ?atks))) ''arrows'') = Some 1"
    by (simp_all add: live_defs run_defs)
  from h s d v l c i p w o show ?thesis by simp
qed

text \<open>
  The claim as stated fails, with the commands taken one at a time. The card of step 0
  cannot be posted after the arrow was written off; the user clicks Next again and the
  arrow is written off again, so the one resolved step costs two arrows. A step whose
  hook vetoes is resolved without any write.
\<close>

theorem retry_writes_twice:
  "resolvedIndices (trk (runEvents
      [ClickNext (exEnv 8 (Some 8) AtPost), Resume 0, ClickNext (exEnv 8 (Some 8) Never), Resume 0]
      (startLive exHost [exAttack ''A'' True, exAttack ''B'' True]))) = {0} \<and>
   commits (trk (runEvents
      [ClickNext (exEnv 8 (Some 8) AtPost), Resume 0, ClickNext (exEnv 8 (Some 8) Never), Resume 0]
      (startLive exHost [exAttack ''A'' True, exAttack ''B'' True]))) = [(0, Ammo), (0, Ammo)] \<and>
   map_option balance (items (trk (startLive exHost [exAttack ''A'' True, exAttack ''B'' True]))
      ''arrows'') = Some 2 \<and>
   map_option balance (items (trk (runEvents
      [ClickNext (exEnv 8 (Some 8) AtPost), Resume 0, ClickNext (exEnv 8 (Some 8) Never), Resume 0]
      (startLive exHost [exAttack ''A'' True, exAttack ''B'' True]))) ''arrows'') = Some 0 \<and>
   resolvedIndices (trk (runEvents
      [ClickNext ((exEnv 8 (Some 8) Never)\<lparr>hookResult := False\<rparr>), Resume 0]
      (startLive exHost [exAttack ''A'' True, exAttack ''B'' True]))) = {0} \<and>
   commits (trk (runEvents
      [ClickNext ((exEnv 8 (Some 8) Never)\<lparr>hookResult := False\<rparr>), Resume 0]
      (startLive exHost [exAttack ''A'' True, exAttack ''B'' True]))) = []"
  by (simp add: live_defs run_defs)

text \<open>
  Claim C9, amended. A write to an ammunition item that is not abundant leaves the
  item's balance at the balance before minus the cost, without a clamp, and leaves the
  other items alone. For an abundant item the helper returns without a write. Take the
  commands one at a time (no click while a call of Advance waits) from the start. The
  balance of every item that is not abundant then stays at zero or above when the cost is
  not negative, every such item holds at the start at least the cost times the number of
  planned attacks that draw on it, and no call of Advance throws after its writes have
  begun. The planner's filter reads the \<^verbatim>\<open>hasAmmo\<close> flag of the host and no balance, so
  the second condition comes from the host.
\<close>

theorem ammo_commit_subtracts_cost:
  "(items s aid = Some it \<and> \<not> abundant it \<and> ammo atk = Some aid \<and> hasAttack (act s) \<and>
    ammo_type (act s) \<noteq> [] \<longrightarrow>
      (\<exists>s'. subtractSingleAttackAmmo False i atk c s = Inr s' \<and>
            map_option balance (items s' aid) = Some (balance it - c) \<and>
            (\<forall>b. b \<noteq> aid \<longrightarrow> items s' b = items s b))) \<and>
   (items s aid = Some it \<and> abundant it \<and> ammo atk = Some aid \<longrightarrow>
      subtractSingleAttackAmmo f i atk c s = Inr s) \<and>
   (0 \<le> ammo_cost (act host) \<and> (\<forall>a. covers (startTracker host atks) a) \<and> earlyThrows cs \<longrightarrow>
      (\<forall>a. nonNegative (trk (runEvents (serial cs) (startLive host atks))) a))"
proof (intro conjI impI)
  assume a: "items s aid = Some it \<and> \<not> abundant it \<and> ammo atk = Some aid \<and> hasAttack (act s) \<and>
    ammo_type (act s) \<noteq> []"
  then show "\<exists>s'. subtractSingleAttackAmmo False i atk c s = Inr s' \<and>
            map_option balance (items s' aid) = Some (balance it - c) \<and>
            (\<forall>b. b \<noteq> aid \<longrightarrow> items s' b = items s b)"
    by (simp add: subtractSingleAttackAmmo_def Let_def balance_def)
next
  assume "items s aid = Some it \<and> abundant it \<and> ammo atk = Some aid"
  then show "subtractSingleAttackAmmo f i atk c s = Inr s"
    by (simp add: subtractSingleAttackAmmo_def)
next
  assume a: "0 \<le> ammo_cost (act host) \<and> (\<forall>a. covers (startTracker host atks) a) \<and> earlyThrows cs"
  let ?st0 = "startTracker host atks"
  have run: "trk (runEvents (serial cs) (startLive host atks)) = runUI cs ?st0"
    by (rule serial_from_start)
  have act0: "act ?st0 = act host" by (simp add: startTracker_def)
  from a act0 have nn: "0 \<le> ammo_cost (act ?st0)" by simp
  from a have cov: "\<forall>a. covers ?st0 a" and e: "earlyThrows cs" by simp_all
  from runUI_covers [OF nn cov e]
  have "act (runUI cs ?st0) = act ?st0" and "\<forall>a. covers (runUI cs ?st0) a" by simp_all
  with nn show "\<forall>a. nonNegative (trk (runEvents (serial cs) (startLive host atks))) a"
    unfolding run by (auto intro: covers_nonNegative)
qed

text \<open>
  Two arrows and two attacks at a cost of one: the balance goes to one, then to zero.
  With the arrows flagged abundant the helper returns the state as it was.
\<close>

theorem ammo_commit_two_arrows:
  "0 \<le> ammo_cost (act exHost) \<and>
   (\<forall>a. covers (startTracker exHost [exAttack ''A'' True, exAttack ''B'' True]) a) \<and>
   earlyThrows [Advance (exEnv 8 (Some 8) Never), Advance (exEnv 8 (Some 8) Never)] \<and>
   nonNegative (trk (runEvents
      (serial [Advance (exEnv 8 (Some 8) Never), Advance (exEnv 8 (Some 8) Never)])
      (startLive exHost [exAttack ''A'' True, exAttack ''B'' True]))) ''arrows'' \<and>
   map_option balance (items (trk (runEvents
      (serial [Advance (exEnv 8 (Some 8) Never), Advance (exEnv 8 (Some 8) Never)])
      (startLive exHost [exAttack ''A'' True, exAttack ''B'' True]))) ''arrows'') = Some 0 \<and>
   map_option balance (items (stateOf (subtractSingleAttackAmmo False 0 (exAttack ''A'' True) 1
      (startTracker exHost [exAttack ''A'' True, exAttack ''B'' True]))) ''arrows'') = Some 1 \<and>
   items (exHost\<lparr>items := [''arrows'' \<mapsto> \<lparr>quantity = Some 2, abundant = True\<rparr>]\<rparr>) ''arrows'' =
     Some \<lparr>quantity = Some 2, abundant = True\<rparr> \<and>
   subtractSingleAttackAmmo False 0 (exAttack ''A'' True) 1
      (exHost\<lparr>items := [''arrows'' \<mapsto> \<lparr>quantity = Some 2, abundant = True\<rparr>]\<rparr>) =
     Inr (exHost\<lparr>items := [''arrows'' \<mapsto> \<lparr>quantity = Some 2, abundant = True\<rparr>]\<rparr>)"
  using ammo_commit_subtracts_cost
          [of "startTracker exHost [exAttack ''A'' True, exAttack ''B'' True]" "''arrows''"
              "\<lparr>quantity = Some 2, abundant = False\<rparr>" "exAttack ''A'' True" 0 1 False
              exHost "[exAttack ''A'' True, exAttack ''B'' True]"
              "[Advance (exEnv 8 (Some 8) Never), Advance (exEnv 8 (Some 8) Never)]"]
        ammo_commit_subtracts_cost
          [of "exHost\<lparr>items := [''arrows'' \<mapsto> \<lparr>quantity = Some 2, abundant = True\<rparr>]\<rparr>"
              "''arrows''" "\<lparr>quantity = Some 2, abundant = True\<rparr>" "exAttack ''A'' True"
              0 1 False exHost "[]" "[]"]
  by (simp add: live_defs run_defs covers_def remaining_def nonNegative_def earlyThrows_def
        beforeCommit_def stateOf_def)

text \<open>
  The claim as stated fails, with the commands taken one at a time. The planner keeps
  both attacks; two arrows are there at a cost of one each. The card of step 0 cannot be
  posted, the user clicks Next again, and the second step is resolved: three arrows are
  written off and the balance is -1.
\<close>

theorem ammo_balance_negative_after_retry:
  "planAttacks exAction 0 2 0 [exAttack ''A'' True, exAttack ''B'' True] =
     Inr [exAttack ''A'' True, exAttack ''B'' True] \<and>
   map_option balance (items (trk (startLive exHost [exAttack ''A'' True, exAttack ''B'' True]))
      ''arrows'') = Some 2 \<and>
   ammo_cost (act exHost) = 1 \<and>
   (\<forall>a. covers (trk (startLive exHost [exAttack ''A'' True, exAttack ''B'' True])) a) \<and>
   map_option balance (items (trk (runEvents
      [ClickNext (exEnv 8 (Some 8) AtPost), Resume 0, ClickNext (exEnv 8 (Some 8) Never),
       Resume 0, ClickNext (exEnv 8 (Some 8) Never), Resume 0]
      (startLive exHost [exAttack ''A'' True, exAttack ''B'' True]))) ''arrows'') = Some (- 1) \<and>
   resolvedIndices (trk (runEvents
      [ClickNext (exEnv 8 (Some 8) AtPost), Resume 0, ClickNext (exEnv 8 (Some 8) Never),
       Resume 0, ClickNext (exEnv 8 (Some 8) Never), Resume 0]
      (startLive exHost [exAttack ''A'' True, exAttack ''B'' True]))) = {0, 1}"
  by (simp add: live_defs run_defs planAttacks_def filterAmmo_def filterCharges_def covers_def
        remaining_def insert_commute)

section \<open>The chat card variant: narrowing and restoring the parts\<close>

lemma get_setAttackParts:
  assumes "hasContainer a"
  shows "getAttackParts (setAttackParts ps a) = ps"
  using assms by (auto simp: hasContainer_def getAttackParts_def setAttackParts_def)

lemma get_no_container:
  assumes "\<not> hasContainer a"
  shows "getAttackParts a = []" and "setAttackParts ps a = a"
  using assms by (auto simp: hasContainer_def getAttackParts_def setAttackParts_def)

lemma hasContainer_set: "hasContainer (setAttackParts ps a) = hasContainer a"
  by (auto simp: hasContainer_def setAttackParts_def)

lemma restore_parts:
  assumes "hasContainer a \<longrightarrow> hasContainer a'"
  shows "getAttackParts (setAttackParts (getAttackParts a) a') = getAttackParts a"
proof (cases "hasContainer a'")
  case True
  then show ?thesis by (simp add: get_setAttackParts)
next
  case False
  with assms have "\<not> hasContainer a" by auto
  with False show ?thesis by (simp add: get_no_container)
qed

text \<open>
  One click whose roll returns before anything else happens to the card. When the
  listener finds no action, or the index is out of range, it returns before it touches
  the action or the pending flag. Otherwise it narrows the parts, rolls, and in its
  \<^verbatim>\<open>finally\<close> block writes the original parts back and sets the flag to \<^verbatim>\<open>null\<close>,
  whether the roll threw or not. The roll is taken not to remove both the \<^verbatim>\<open>system\<close> and
  the \<^verbatim>\<open>data\<close> object of an action that had one.
\<close>

lemma click_alone_restores_attack_parts:
  assumes "rolling st = []" and "b \<notin> usedButtons st"
  shows "(theAction st = None \<longrightarrow>
            theAction (onRollClick use aid b idx st) = None \<and>
            pendingSingleAttack (onRollClick use aid b idx st) = pendingSingleAttack st) \<and>
         (theAction st = Some a \<and> outOfRange idx (getAttackParts a) \<longrightarrow>
            theAction (onRollClick use aid b idx st) = Some a \<and>
            pendingSingleAttack (onRollClick use aid b idx st) = pendingSingleAttack st) \<and>
         (theAction st = Some a \<and> \<not> outOfRange idx (getAttackParts a) \<and>
          (hasContainer a \<longrightarrow>
             hasContainer (fst (use (setAttackParts (singlePart idx (getAttackParts a)) a)))) \<longrightarrow>
            map_option getAttackParts (theAction (onRollClick use aid b idx st)) =
              Some (getAttackParts a) \<and>
            pendingSingleAttack (onRollClick use aid b idx st) = None \<and>
            rolling (onRollClick use aid b idx st) = [])"
proof (intro conjI impI)
  assume "theAction st = None"
  with assms show "theAction (onRollClick use aid b idx st) = None"
    and "pendingSingleAttack (onRollClick use aid b idx st) = pendingSingleAttack st"
    by (simp_all add: onRollClick_def runChat_def chatStep_def beginRoll_def)
next
  assume "theAction st = Some a \<and> outOfRange idx (getAttackParts a)"
  with assms show "theAction (onRollClick use aid b idx st) = Some a"
    and "pendingSingleAttack (onRollClick use aid b idx st) = pendingSingleAttack st"
    by (simp_all add: onRollClick_def runChat_def chatStep_def beginRoll_def Let_def)
next
  assume h: "theAction st = Some a \<and> \<not> outOfRange idx (getAttackParts a) \<and>
    (hasContainer a \<longrightarrow>
       hasContainer (fst (use (setAttackParts (singlePart idx (getAttackParts a)) a))))"
  let ?a' = "fst (use (setAttackParts (singlePart idx (getAttackParts a)) a))"
  from h assms have t: "theAction (onRollClick use aid b idx st) =
      Some (setAttackParts (getAttackParts a) ?a')"
    by (simp add: onRollClick_def runChat_def chatStep_def beginRoll_def endRoll_def Let_def)
  from h have "getAttackParts (setAttackParts (getAttackParts a) ?a') = getAttackParts a"
    by (intro restore_parts) simp
  with t show "map_option getAttackParts (theAction (onRollClick use aid b idx st)) =
        Some (getAttackParts a)" by simp
  from h assms show "pendingSingleAttack (onRollClick use aid b idx st) = None"
    and "rolling (onRollClick use aid b idx st) = []"
    by (simp_all add: onRollClick_def runChat_def chatStep_def beginRoll_def endRoll_def Let_def)
qed

lemmas chat_defs = runChat_def chatStep_def beginRoll_def endRoll_def onRollClick_def
  outOfRange_def singlePart_def getAttackParts_def setAttackParts_def exChat_def
  exItemAction_def exUse_def okUse_def Let_def

text \<open>
  A click on the button of the third attack with nothing else going on; the roll sees
  only that part, empties it and throws. Both parts are back afterwards, the flag is
  \<^verbatim>\<open>null\<close> and the button is enabled again.
\<close>

lemma click_alone_after_failed_roll:
  "setAttackParts (singlePart (Some 2) (getAttackParts exItemAction)) exItemAction =
     \<lparr>act_system = Some (Some [Part ''-10'' ''Third'']), act_data = None\<rparr> \<and>
   snd (exUse (setAttackParts (singlePart (Some 2) (getAttackParts exItemAction)) exItemAction)) \<and>
   map_option getAttackParts (theAction (onRollClick exUse ''act1'' 2 (Some 2) exChat)) =
     Some [Part ''-5'' ''Second'', Part ''-10'' ''Third''] \<and>
   pendingSingleAttack (onRollClick exUse ''act1'' 2 (Some 2) exChat) = None \<and>
   usedButtons (onRollClick exUse ''act1'' 2 (Some 2) exChat) = {}"
  using click_alone_restores_attack_parts [of exChat 2 exUse "''act1''" "Some 2" exItemAction]
  by (simp add: chat_defs hasContainer_def)

text \<open>
  Claim C10. The claim does not hold of the code when a second button of the card is
  clicked while the roll of the first is under way. The action has the parts Second and
  Third. The button of the third attack is clicked: the parts are narrowed to Third and
  the roll starts. The button of the second attack is clicked: the listener copies the
  narrowed parts as its original (line 149). The first roll returns and writes both
  parts back; the second roll returns and writes back its copy (line 181), so the action
  is left with the part Third alone, against the comment of line 179.
\<close>

theorem second_click_keeps_parts_narrowed:
  "map_option getAttackParts (theAction exChat) =
     Some [Part ''-5'' ''Second'', Part ''-10'' ''Third''] \<and>
   map_option getAttackParts (theAction (runChat ''act1'' [ClickRoll 2 (Some 2)] exChat)) =
     Some [Part ''-10'' ''Third''] \<and>
   usedButtons (runChat ''act1'' [ClickRoll 2 (Some 2)] exChat) = {2} \<and>
   map_option getAttackParts
     (theAction (runChat ''act1'' [ClickRoll 2 (Some 2), ClickRoll 1 (Some 1)] exChat)) =
     Some [Part ''-10'' ''Third''] \<and>
   map roll_origParts
     (rolling (runChat ''act1'' [ClickRoll 2 (Some 2), ClickRoll 1 (Some 1)] exChat)) =
     [[Part ''-5'' ''Second'', Part ''-10'' ''Third''], [Part ''-10'' ''Third'']] \<and>
   map_option getAttackParts
     (theAction (runChat ''act1''
        [ClickRoll 2 (Some 2), ClickRoll 1 (Some 1), RollReturns 0 okUse] exChat)) =
     Some [Part ''-5'' ''Second'', Part ''-10'' ''Third''] \<and>
   map_option getAttackParts
     (theAction (runChat ''act1''
        [ClickRoll 2 (Some 2), ClickRoll 1 (Some 1), RollReturns 0 okUse, RollReturns 0 okUse]
        exChat)) =
     Some [Part ''-10'' ''Third''] \<and>
   rolling (runChat ''act1''
        [ClickRoll 2 (Some 2), ClickRoll 1 (Some 1), RollReturns 0 okUse, RollReturns 0 okUse]
        exChat) = []"
  by (simp add: chat_defs)

end
